theory Spec2Isabelle
  imports Complex_Main "HOL-Library.Log_Nat" "HOL-Library.AList"
begin

section \<open>Data model\<close>

text \<open>
  The analysis code of the repository lives in React components. Every value it reads
  arrives as JSON from the OpenF1 service, so a \<open>number\<close> is a finite double. The
  kinematics and the position reconstruction only compare such numbers, add lap durations
  and multiply small integers: they are modelled with \<open>real\<close>, \<open>int\<close> and \<open>nat\<close>.
  A sum of lap durations is exact here, where the source rounds at each addition.
  A read of an array element that does not exist yields \<open>undefined\<close> in the source, and
  the property access on it throws; that is the error value \<open>TypeError\<close> here.
\<close>

datatype js_error = TypeError

text \<open>\<open>CarData\<close> (lib/openf1 types): the fields the corner analysis reads.\<close>

record CarData =
  brake :: real
  speed :: real
  throttle :: real

text \<open>\<open>Driver\<close>: the fields the components read.\<close>

record Driver =
  driver_number :: nat
  name_acronym :: string
  team_colour :: string

record TracePoint =
  distance :: int
  trace_speed :: real

text \<open>\<open>DriverCornerData\<close> of CornerAnalysis.tsx. \<open>minSpeed\<close> starts as \<open>Infinity\<close>,
  which is \<open>None\<close> here.\<close>

record DriverCornerData =
  driver :: Driver
  entrySpeed :: real
  minSpeed :: "real option"
  exitSpeed :: real
  brakingDistance :: int
  throttleOnDistance :: int
  color :: string
  speedTrace :: "TracePoint list"

section \<open>Kinematics extraction (CornerAnalysis.tsx, analyzeCorner, lines 108--163)\<close>

text \<open>\<open>data.speed < minSpeed\<close> where \<open>minSpeed\<close> may still be \<open>Infinity\<close>.\<close>

fun below :: "real \<Rightarrow> real option \<Rightarrow> bool" where
  "below v None = True"
| "below v (Some m) = (v < m)"

text \<open>The \<open>forEach\<close> of lines 111--116: the remaining samples, the index of the next one,
  and the two variables \<open>minSpeed\<close> and \<open>minSpeedIdx\<close> it assigns.\<close>

fun apexLoop :: "CarData list \<Rightarrow> nat \<Rightarrow> real option \<Rightarrow> nat \<Rightarrow> real option \<times> nat" where
  "apexLoop [] i m mi = (m, mi)"
| "apexLoop (d # ds) i m mi =
     (if below (speed d) m then apexLoop ds (i + 1) (Some (speed d)) i
      else apexLoop ds (i + 1) m mi)"

definition findApex :: "CarData list \<Rightarrow> real option \<times> nat" where
  "findApex cornerWindow = apexLoop cornerWindow 0 None 0"

text \<open>Lines 125--131: \<open>for (let i = 0; i < minSpeedIdx; i++)\<close> with its \<open>break\<close>.
  The last argument is the current value of \<open>brakingStartIdx\<close>.\<close>

function brakeLoop :: "CarData list \<Rightarrow> nat \<Rightarrow> nat \<Rightarrow> nat \<Rightarrow> js_error + nat" where
  "brakeLoop w minSpeedIdx i brakingStartIdx =
     (if i < minSpeedIdx then
        (if length w \<le> i then Inl TypeError
         else if brake (w ! i) > 10 then Inr i
         else brakeLoop w minSpeedIdx (i + 1) brakingStartIdx)
      else Inr brakingStartIdx)"
  by pat_completeness auto
termination
  by (relation "measure (\<lambda>(w, minSpeedIdx, i, b). minSpeedIdx - i)") auto

declare brakeLoop.simps [simp del]

text \<open>Lines 134--140: \<open>for (let i = minSpeedIdx; i < cornerWindow.length; i++)\<close>.\<close>

function throttleLoop :: "CarData list \<Rightarrow> nat \<Rightarrow> nat \<Rightarrow> nat" where
  "throttleLoop w i throttleOnIdx =
     (if i < length w then
        (if throttle (w ! i) > 50 then i
         else throttleLoop w (i + 1) throttleOnIdx)
      else throttleOnIdx)"
  by pat_completeness auto
termination
  by (relation "measure (\<lambda>(w, i, t). length w - i)") auto

declare throttleLoop.simps [simp del]

definition metersPerSample :: int where
  "metersPerSample = 27"

text \<open>\<open>cornerWindow[0]?.speed || 0\<close> and \<open>cornerWindow[cornerWindow.length - 1]?.speed || 0\<close>.\<close>

definition speedOrZero :: "CarData list \<Rightarrow> int \<Rightarrow> real" where
  "speedOrZero w i = (if 0 \<le> i \<and> i < int (length w) then speed (w ! nat i) else 0)"

text \<open>The indices the extraction settles on, before they are turned into distances.\<close>

record CornerIndices =
  apexIdx :: nat
  brakingStart :: nat
  throttleOn :: nat

definition cornerIndices :: "CarData list \<Rightarrow> js_error + CornerIndices" where
  "cornerIndices w =
     (let minSpeedIdx = snd (findApex w) in
      case brakeLoop w minSpeedIdx 0 0 of
        Inl e \<Rightarrow> Inl e
      | Inr brakingStartIdx \<Rightarrow>
          Inr \<lparr> apexIdx = minSpeedIdx, brakingStart = brakingStartIdx,
                throttleOn = throttleLoop w minSpeedIdx minSpeedIdx \<rparr>)"

definition analyzeWindow :: "Driver \<Rightarrow> CarData list \<Rightarrow> js_error + DriverCornerData" where
  "analyzeWindow drv w =
     (case cornerIndices w of
        Inl e \<Rightarrow> Inl e
      | Inr ix \<Rightarrow>
          Inr \<lparr> driver = drv,
                entrySpeed = speedOrZero w 0,
                minSpeed = fst (findApex w),
                exitSpeed = speedOrZero w (int (length w) - 1),
                brakingDistance = (int (apexIdx ix) - int (brakingStart ix)) * metersPerSample,
                throttleOnDistance = (int (throttleOn ix) - int (apexIdx ix)) * metersPerSample,
                color = CHR ''#'' # team_colour drv,
                speedTrace = map (\<lambda>(i, d). \<lparr> distance = (int i - int (apexIdx ix)) * metersPerSample,
                                               trace_speed = speed d \<rparr>)
                                 (enumerate 0 w) \<rparr>)"

text \<open>The indices at which the brake is over 10 and the throttle over 50, for stating
  concrete windows.\<close>

definition brakeIndices :: "CarData list \<Rightarrow> nat list" where
  "brakeIndices w = filter (\<lambda>i. brake (w ! i) > 10) [0..<length w]"

definition throttleIndices :: "CarData list \<Rightarrow> nat list" where
  "throttleIndices w = filter (\<lambda>i. throttle (w ! i) > 50) [0..<length w]"

text \<open>A synthetic window: speed is the parabola \<open>(i - 5)\<^sup>2 + 100\<close>, braking on \<open>[0, 5)\<close>,
  throttle on \<open>(5, 10]\<close>.\<close>

definition roundTripWindow :: "CarData list" where
  "roundTripWindow =
    [\<lparr>brake = 100, speed = 125, throttle = 0\<rparr>,
     \<lparr>brake = 100, speed = 116, throttle = 0\<rparr>,
     \<lparr>brake = 100, speed = 109, throttle = 0\<rparr>,
     \<lparr>brake = 100, speed = 104, throttle = 0\<rparr>,
     \<lparr>brake = 100, speed = 101, throttle = 0\<rparr>,
     \<lparr>brake = 0, speed = 100, throttle = 0\<rparr>,
     \<lparr>brake = 0, speed = 101, throttle = 100\<rparr>,
     \<lparr>brake = 0, speed = 104, throttle = 100\<rparr>,
     \<lparr>brake = 0, speed = 109, throttle = 100\<rparr>,
     \<lparr>brake = 0, speed = 116, throttle = 100\<rparr>,
     \<lparr>brake = 0, speed = 125, throttle = 100\<rparr>]"

definition someDriver :: Driver where
  "someDriver = \<lparr>driver_number = 44, name_acronym = ''HAM'', team_colour = ''00D2BE''\<rparr>"

text \<open>A window in which the brake is never applied; the minimum speed is at index 5.\<close>

definition noBrakeWindow :: "CarData list" where
  "noBrakeWindow =
    [\<lparr>brake = 0, speed = 125, throttle = 100\<rparr>,
     \<lparr>brake = 0, speed = 116, throttle = 60\<rparr>,
     \<lparr>brake = 0, speed = 109, throttle = 20\<rparr>,
     \<lparr>brake = 0, speed = 104, throttle = 0\<rparr>,
     \<lparr>brake = 0, speed = 101, throttle = 0\<rparr>,
     \<lparr>brake = 0, speed = 100, throttle = 0\<rparr>,
     \<lparr>brake = 0, speed = 101, throttle = 100\<rparr>,
     \<lparr>brake = 0, speed = 104, throttle = 100\<rparr>,
     \<lparr>brake = 0, speed = 109, throttle = 100\<rparr>,
     \<lparr>brake = 0, speed = 116, throttle = 100\<rparr>]"

section \<open>Double arithmetic where rounding decides the result\<close>

text \<open>
  The aligners divide two sample counts and multiply the quotient by a third. Both
  operations round to the nearest double, ties to even, and \<open>Math.floor\<close> of the product
  depends on that rounding, so it is written out: a double is the real number it denotes,
  \<open>binExponent x\<close> is the \<open>e\<close> with \<open>2\<^sup>e \<le> \<bar>x\<bar> < 2\<^sup>e\<^sup>+\<^sup>1\<close>, and the significand keeps
  53 bits. The exponent range of binary64 is not modelled; the quotients and products of
  sample counts lie far inside it.
\<close>

definition binExponent :: "real \<Rightarrow> int" where
  "binExponent x =
     (if 1 \<le> \<bar>x\<bar> then int (floorlog 2 (nat \<lfloor>\<bar>x\<bar>\<rfloor>)) - 1
      else - int (floorlog 2 (nat (\<lceil>1 / \<bar>x\<bar>\<rceil> - 1))))"

definition roundHalfEven :: "real \<Rightarrow> int" where
  "roundHalfEven q =
     (let f = \<lfloor>q\<rfloor>; r = q - of_int f in
      if r < 1 / 2 then f else if 1 / 2 < r then f + 1 else if even f then f else f + 1)"

definition ulp :: "real \<Rightarrow> real" where
  "ulp x = 2 powi (binExponent x - 52)"

definition toDouble :: "real \<Rightarrow> real" where
  "toDouble x = (if x = 0 then 0 else of_int (roundHalfEven (x / ulp x)) * ulp x)"

text \<open>\<open>a / b\<close> for \<open>b \<noteq> 0\<close>, and \<open>a * b\<close>.\<close>

definition js_div :: "real \<Rightarrow> real \<Rightarrow> real" where
  "js_div a b = toDouble (a / b)"

definition js_mul :: "real \<Rightarrow> real \<Rightarrow> real" where
  "js_mul a b = toDouble (a * b)"

text \<open>\<open>Array.prototype.slice(start, end)\<close> with integer arguments: a negative argument
  counts from the end, both are clipped to the array.\<close>

definition js_slice :: "'a list \<Rightarrow> int \<Rightarrow> int \<Rightarrow> 'a list" where
  "js_slice xs start end' =
     (let n = int (length xs);
          k = (if start < 0 then max (n + start) 0 else min start n);
          final = (if end' < 0 then max (n + end') 0 else min end' n)
      in drop (nat k) (take (nat final) xs))"

section \<open>Fastest laps (the \<open>driverFastestLaps\<close> memo of both corner components)\<close>

text \<open>\<open>Lap\<close>: the fields the components read. The driver number of a lap is
  \<open>driver_number\<close> in the source, as it is in \<open>Driver\<close>.\<close>

record Lap =
  date_start :: string
  lap_driver_number :: nat
  is_pit_out_lap :: bool
  lap_duration :: "real option"
  lap_number :: int

text \<open>A \<open>Map\<close> keyed by numbers is a list of pairs in insertion order: \<open>get\<close> is
  \<open>map_of\<close>, and \<open>set\<close> is \<open>AList.update\<close>, which overwrites in place or appends.\<close>

text \<open>A relational operator converts \<open>null\<close> to 0.\<close>

definition toNumber :: "real option \<Rightarrow> real" where
  "toNumber v = (case v of None \<Rightarrow> 0 | Some r \<Rightarrow> r)"

definition fasterLap :: "Lap option \<Rightarrow> Lap \<Rightarrow> Lap option" where
  "fasterLap best lap =
     (case best of
        None \<Rightarrow> Some lap
      | Some b \<Rightarrow> if toNumber (lap_duration lap) < toNumber (lap_duration b) then Some lap
                  else Some b)"

definition fastestOf :: "Lap list \<Rightarrow> Driver \<Rightarrow> Lap option" where
  "fastestOf laps drv =
     foldl fasterLap None
       (filter (\<lambda>lap. lap_driver_number lap = driver_number drv
                      \<and> lap_duration lap \<noteq> None \<and> \<not> is_pit_out_lap lap) laps)"

definition driverFastestLaps :: "Driver list \<Rightarrow> Lap list \<Rightarrow> (nat \<times> Lap) list" where
  "driverFastestLaps drivers laps =
     foldl (\<lambda>fastestLaps drv.
              case fastestOf laps drv of
                None \<Rightarrow> fastestLaps
              | Some fastest \<Rightarrow> AList.update (driver_number drv) fastest fastestLaps)
           [] drivers"

section \<open>Telemetry window and driver loop (CornerAnalysis.tsx, analyzeCorner, lines 73--166)\<close>







section \<open>Position traces (CornerZoom.tsx, fetchDriverTraces, lines 187--235)\<close>

record Location =
  loc_x :: real
  loc_y :: real

record TrackPoint =
  px :: real
  py :: real

text \<open>\<open>CornerData\<close> of CornerZoom.tsx; its field \<open>points\<close> is \<open>corner_points\<close> here.\<close>

record CornerData =
  index :: nat
  center :: TrackPoint
  corner_points :: "TrackPoint list"


text \<open>Line 218 with the ratio of line 216: \<open>Math.floor(validData.length * (currentCorner.index
  / fullTrackPoints.length))\<close>, for a reference lap that is not empty.\<close>

definition centerIdxOf :: "nat \<Rightarrow> nat \<Rightarrow> nat \<Rightarrow> int" where
  "centerIdxOf cornerIndex nref n = \<lfloor>js_mul (real n) (js_div (real cornerIndex) (real nref))\<rfloor>"


definition validLocations :: "Location list \<Rightarrow> Location list" where
  "validLocations locationData = filter (\<lambda>loc. loc_x loc \<noteq> 0 \<or> loc_y loc \<noteq> 0) locationData"







text \<open>Two drivers, a telemetry response of 100 samples for driver 44 and of 50 samples for
  anyone else, and a position response of five samples for everyone.\<close>

definition otherDriver :: Driver where
  "otherDriver = \<lparr>driver_number = 16, name_acronym = ''LEC'', team_colour = ''E8002D''\<rparr>"






section \<open>Corner detection (CornerZoom.tsx, fetchTrackData, lines 95--162)\<close>

text \<open>
  \<open>Math.atan2\<close> and the angle between the two chords are taken over the reals; the double
  the source computes differs from it by rounding, which can change the comparison with
  0.25 only for an angle within rounding distance of the threshold.
\<close>

definition atan2 :: "real \<Rightarrow> real \<Rightarrow> real" where
  "atan2 y x =
     (if 0 < x then arctan (y / x)
      else if x < 0 then (if 0 \<le> y then arctan (y / x) + pi else arctan (y / x) - pi)
      else if 0 < y then pi / 2
      else if y < 0 then - pi / 2
      else 0)"

text \<open>Lines 127--130.\<close>

definition angleDiffOf :: "TrackPoint \<Rightarrow> TrackPoint \<Rightarrow> TrackPoint \<Rightarrow> real" where
  "angleDiffOf prev curr' next =
     (let angle1 = atan2 (py curr' - py prev) (px curr' - px prev);
          angle2 = atan2 (py next - py curr') (px next - px curr');
          angleDiff = \<bar>angle2 - angle1\<bar>
      in if angleDiff > pi then 2 * pi - angleDiff else angleDiff)"

text \<open>Line 120: \<open>Math.max(10, Math.floor(points.length / 30))\<close>. The quotient of an
  integer by 30 is never rounded across an integer, so the floor is integer division.\<close>

definition windowSizeOf :: "TrackPoint list \<Rightarrow> nat" where
  "windowSizeOf points = max 10 (length points div 30)"

text \<open>Lines 135--143: the corner pushed for loop index \<open>i\<close>.\<close>

definition cornerAt :: "TrackPoint list \<Rightarrow> nat \<Rightarrow> CornerData" where
  "cornerAt points i =
     (let segmentSize = \<lfloor>js_mul (real (length points)) (toDouble (8 / 100))\<rfloor>;
          startIdx = max 0 (int i - segmentSize);
          endIdx = min (int (length points) - 1) (int i + segmentSize)
      in \<lparr> index = i, center = points ! i, corner_points = js_slice points startIdx (endIdx + 1) \<rparr>)"

text \<open>Lines 122--145: \<open>for (let i = windowSize * 2; i < points.length - windowSize * 2;
  i += Math.floor(windowSize / 2))\<close>. The arguments are the loop variable and
  \<open>detectedCorners\<close>. A chord end outside the array would be \<open>undefined\<close>, and reading its
  \<open>y\<close> throws.\<close>

function detectLoop :: "TrackPoint list \<Rightarrow> nat \<Rightarrow> CornerData list \<Rightarrow> js_error + CornerData list" where
  "detectLoop points i detectedCorners =
     (if int i < int (length points) - int (windowSizeOf points * 2) then
        (if i < windowSizeOf points \<or> length points \<le> i + windowSizeOf points then Inl TypeError
         else detectLoop points (i + windowSizeOf points div 2)
                (if angleDiffOf (points ! (i - windowSizeOf points)) (points ! i)
                      (points ! (i + windowSizeOf points)) > 0.25
                 then detectedCorners @ [cornerAt points i]
                 else detectedCorners))
      else Inr detectedCorners)"
  by pat_completeness auto
termination
  by (relation "measure (\<lambda>(points, i, d). length points - i)")
    (auto simp: windowSizeOf_def)

declare detectLoop.simps [simp del]

text \<open>Lines 148--156: the \<open>forEach\<close> over \<open>detectedCorners\<close>; the last argument is
  \<open>filteredCorners\<close>.\<close>

definition isTooClose :: "nat \<Rightarrow> CornerData list \<Rightarrow> CornerData \<Rightarrow> bool" where
  "isTooClose windowSize filteredCorners corner =
     list_ex (\<lambda>existing. \<bar>real_of_int (int (index existing) - int (index corner))\<bar>
                           < real windowSize * 1.5) filteredCorners"

fun filterLoop :: "nat \<Rightarrow> CornerData list \<Rightarrow> CornerData list \<Rightarrow> CornerData list" where
  "filterLoop windowSize [] filteredCorners = filteredCorners"
| "filterLoop windowSize (corner # rest) filteredCorners =
     filterLoop windowSize rest
       (if \<not> isTooClose windowSize filteredCorners corner then filteredCorners @ [corner]
        else filteredCorners)"

text \<open>Lines 119--158: the catalog passed to \<open>setCorners\<close>.\<close>

definition detectCorners :: "TrackPoint list \<Rightarrow> js_error + CornerData list" where
  "detectCorners points =
     (case detectLoop points (windowSizeOf points * 2) [] of
        Inl e \<Rightarrow> Inl e
      | Inr detectedCorners \<Rightarrow>
          Inr (js_slice (filterLoop (windowSizeOf points) detectedCorners []) 0 20))"

text \<open>The state \<open>fetchTrackData\<close> writes (\<open>fullTrackPoints\<close>, \<open>corners\<close>,
  \<open>referenceDriverNumber\<close>), and the function on the response of the position
  query: an empty set of valid samples returns before anything is set, and an exception
  is caught and logged after the track points were stored.\<close>

record ZoomState =
  st_fullTrackPoints :: "TrackPoint list"
  st_corners :: "CornerData list"
  st_referenceDriverNumber :: "nat option"

definition fetchTrackData :: "Location list \<Rightarrow> nat \<Rightarrow> ZoomState \<Rightarrow> ZoomState" where
  "fetchTrackData locationData fastestDriverNumber st =
     (let validData = validLocations locationData in
      if length validData = 0 then st
      else
        let points = map (\<lambda>loc. \<lparr>px = loc_x loc, py = loc_y loc\<rparr>) validData;
            st' = st \<lparr> st_fullTrackPoints := points,
                       st_referenceDriverNumber := Some fastestDriverNumber \<rparr>
        in case detectCorners points of
             Inl e \<Rightarrow> st'
           | Inr filteredCorners \<Rightarrow> st' \<lparr> st_corners := filteredCorners \<rparr>)"


text \<open>A track of 61 samples with two right-angle turns: east along \<open>y = 0\<close> up to sample
  20, north along \<open>x = 20\<close> up to sample 40, then west along \<open>y = 20\<close>.\<close>

definition pathPoint :: "nat \<Rightarrow> TrackPoint" where
  "pathPoint j =
     (if j \<le> 20 then \<lparr>px = real j, py = 0\<rparr>
      else if j \<le> 40 then \<lparr>px = 20, py = real j - 20\<rparr>
      else \<lparr>px = 60 - real j, py = 20\<rparr>)"


text \<open>A track too short for any chord.\<close>

definition shortTrack :: "TrackPoint list" where
  "shortTrack = map pathPoint [0..<39]"

section \<open>Position reconstruction (RacePositionChart, the \<open>driverPositions\<close> memo)\<close>

text \<open>\<open>PositionData\<close> is \<open>{ lap, position }\<close> and \<open>DriverPositions\<close> is \<open>{ driverNumber,
  acronym, color, positions }\<close> in the source; the fields carry a prefix here.\<close>

record PositionData =
  pd_lap :: int
  pd_position :: nat

record DriverPositions =
  dp_driverNumber :: nat
  dp_acronym :: string
  dp_color :: string
  dp_positions :: "PositionData list"

text \<open>Lines 597--604: one entry per driver number, in the order of first appearance.\<close>

definition initPositionMap :: "Driver list \<Rightarrow> (nat \<times> DriverPositions) list" where
  "initPositionMap drivers =
     foldl (\<lambda>positionMap drv.
              AList.update (driver_number drv)
                \<lparr> dp_driverNumber = driver_number drv, dp_acronym = name_acronym drv,
                  dp_color = CHR ''#'' # team_colour drv, dp_positions = [] \<rparr>
                positionMap)
           [] drivers"

text \<open>Lines 609--617: a lap is appended to the group of its lap number, which is created
  empty when the number is new. An entry of a group is the pair \<open>{ driverNumber,
  duration }\<close>.\<close>

definition groupStep ::
  "(int \<times> (nat \<times> real option) list) list \<Rightarrow> Lap \<Rightarrow> (int \<times> (nat \<times> real option) list) list" where
  "groupStep lapGroups l =
     (case map_of lapGroups (lap_number l) of
        None \<Rightarrow> AList.update (lap_number l) [(lap_driver_number l, lap_duration l)] lapGroups
      | Some g \<Rightarrow>
          AList.update (lap_number l) (g @ [(lap_driver_number l, lap_duration l)]) lapGroups)"

definition lapGroupsOf :: "Lap list \<Rightarrow> (int \<times> (nat \<times> real option) list) list" where
  "lapGroupsOf laps = foldl groupStep [] laps"

text \<open>Lines 622--623: \<open>Array.from(lapGroups.keys()).sort((a, b) => a - b)\<close>.\<close>

definition lapNumbers :: "Lap list \<Rightarrow> int list" where
  "lapNumbers laps = sort (map fst (lapGroupsOf laps))"

text \<open>Lines 628--633, the callback on one entry of \<open>lapData\<close>. \<open>get(...) || 0\<close> is 0 for
  a missing key and for a stored 0.\<close>

definition addDuration :: "(nat \<times> real) list \<Rightarrow> nat \<times> real option \<Rightarrow> (nat \<times> real) list" where
  "addDuration cumulativeTimes e =
     (case snd e of
        None \<Rightarrow> cumulativeTimes
      | Some d \<Rightarrow>
          (let prev = (case map_of cumulativeTimes (fst e) of
                         None \<Rightarrow> 0
                       | Some t \<Rightarrow> if t = 0 then 0 else t)
           in AList.update (fst e) (prev + d) cumulativeTimes))"

text \<open>Lines 639--647: the \<open>forEach\<close> over \<open>sorted\<close> with its index. A driver number that
  is not in \<open>positionMap\<close> gets no entry.\<close>

fun pushPositions ::
  "int \<Rightarrow> (nat \<times> real) list \<Rightarrow> nat \<Rightarrow> (nat \<times> DriverPositions) list
   \<Rightarrow> (nat \<times> DriverPositions) list" where
  "pushPositions lapNum [] idx positionMap = positionMap"
| "pushPositions lapNum (entry # rest) idx positionMap =
     pushPositions lapNum rest (idx + 1)
       (case map_of positionMap (fst entry) of
          None \<Rightarrow> positionMap
        | Some driverData \<Rightarrow>
            AList.update (fst entry)
              (driverData \<lparr> dp_positions :=
                 dp_positions driverData @ [\<lparr>pd_lap = lapNum, pd_position = idx + 1\<rparr>] \<rparr>)
              positionMap)"

text \<open>Lines 624--648, one lap number. The state is \<open>cumulativeTimes\<close> and \<open>positionMap\<close>.
  \<open>Array.prototype.sort\<close> is stable and the comparator orders by the cumulative time,
  which is what \<open>sort_key snd\<close> computes. A lap number without a group would make
  \<open>lapData\<close> undefined.\<close>

definition processLap ::
  "(int \<times> (nat \<times> real option) list) list
   \<Rightarrow> (nat \<times> real) list \<times> (nat \<times> DriverPositions) list \<Rightarrow> int
   \<Rightarrow> js_error + (nat \<times> real) list \<times> (nat \<times> DriverPositions) list" where
  "processLap lapGroups st lapNum =
     (case map_of lapGroups lapNum of
        None \<Rightarrow> Inl TypeError
      | Some lapData \<Rightarrow>
          (let cumulativeTimes = foldl addDuration (fst st) lapData;
               sorted' = sort_key snd cumulativeTimes
           in Inr (cumulativeTimes, pushPositions lapNum sorted' 0 (snd st))))"

fun processLaps ::
  "(int \<times> (nat \<times> real option) list) list \<Rightarrow> int list
   \<Rightarrow> (nat \<times> real) list \<times> (nat \<times> DriverPositions) list
   \<Rightarrow> js_error + (nat \<times> real) list \<times> (nat \<times> DriverPositions) list" where
  "processLaps lapGroups [] st = Inr st"
| "processLaps lapGroups (lapNum # rest) st =
     (case processLap lapGroups st lapNum of
        Inl e \<Rightarrow> Inl e
      | Inr st' \<Rightarrow> processLaps lapGroups rest st')"

text \<open>Lines 594--650 for defined \<open>drivers\<close> and \<open>laps\<close>.\<close>

definition reconstruct :: "Driver list \<Rightarrow> Lap list \<Rightarrow> js_error + DriverPositions list" where
  "reconstruct drivers laps =
     (case processLaps (lapGroupsOf laps) (lapNumbers laps) ([], initPositionMap drivers) of
        Inl e \<Rightarrow> Inl e
      | Inr st \<Rightarrow> Inr (filter (\<lambda>d. length (dp_positions d) > 0) (map snd (snd st))))"

text \<open>Lines 591--651: the memo returns \<open>[]\<close> while either query has no data.\<close>

definition driverPositions ::
  "Driver list option \<Rightarrow> Lap list option \<Rightarrow> js_error + DriverPositions list" where
  "driverPositions drivers laps =
     (case (laps, drivers) of
        (Some ls, Some ds) \<Rightarrow> reconstruct ds ls
      | _ \<Rightarrow> Inr [])"

subsection \<open>Observations of the loop\<close>

text \<open>\<open>cumulativeTimes\<close> after the loop has handled the lap numbers up to \<open>L\<close>, before it
  handles \<open>L\<close>, and at its end. The position map plays no part in it.\<close>

definition cumulativeOver :: "Lap list \<Rightarrow> int list \<Rightarrow> (nat \<times> real) list" where
  "cumulativeOver laps lapNums =
     (case processLaps (lapGroupsOf laps) lapNums ([], []) of
        Inl e \<Rightarrow> []
      | Inr st \<Rightarrow> fst st)"

definition cumulativeAt :: "Lap list \<Rightarrow> int \<Rightarrow> (nat \<times> real) list" where
  "cumulativeAt laps L = cumulativeOver laps (filter (\<lambda>k. k \<le> L) (lapNumbers laps))"


definition cumulativeFinal :: "Lap list \<Rightarrow> (nat \<times> real) list" where
  "cumulativeFinal laps = cumulativeOver laps (lapNumbers laps)"

text \<open>The array \<open>sorted\<close> of the pass for lap number \<open>L\<close>.\<close>

definition standingsAt :: "Lap list \<Rightarrow> int \<Rightarrow> (nat \<times> real) list" where
  "standingsAt laps L = sort_key snd (cumulativeAt laps L)"

text \<open>The entries of the groups in the order the loop visits them, up to lap number \<open>L\<close>.\<close>

definition processedEntries :: "Lap list \<Rightarrow> int \<Rightarrow> (nat \<times> real option) list" where
  "processedEntries laps L =
     concat (map (\<lambda>k. case map_of (lapGroupsOf laps) k of None \<Rightarrow> [] | Some g \<Rightarrow> g)
                 (filter (\<lambda>k. k \<le> L) (lapNumbers laps)))"

text \<open>A list without its repetitions, every element at its first occurrence.\<close>

definition firstOccurrences :: "'a list \<Rightarrow> 'a list" where
  "firstOccurrences xs = rev (remdups (rev xs))"

text \<open>The pairs (driver number, position) that a result holds for lap number \<open>L\<close>.\<close>

definition positionsAtLap :: "DriverPositions list \<Rightarrow> int \<Rightarrow> (nat \<times> nat) list" where
  "positionsAtLap res L =
     concat (map (\<lambda>d. map (\<lambda>e. (dp_driverNumber d, pd_position e))
                         (filter (\<lambda>e. pd_lap e = L) (dp_positions d))) res)"

text \<open>The sum of the non-null durations of a driver's laps, pit-out laps included.\<close>

definition totalDuration :: "Lap list \<Rightarrow> nat \<Rightarrow> real" where
  "totalDuration laps n =
     sum_list (map (\<lambda>l. toNumber (lap_duration l))
                 (filter (\<lambda>l. lap_driver_number l = n \<and> lap_duration l \<noteq> None) laps))"

definition hasDuration :: "Lap list \<Rightarrow> nat \<Rightarrow> bool" where
  "hasDuration laps n = list_ex (\<lambda>l. lap_driver_number l = n \<and> lap_duration l \<noteq> None) laps"

subsection \<open>The loop without the lookup that cannot fail\<close>

text \<open>The entries pushed for driver \<open>n\<close> by one pass over \<open>sorted\<close>, the cumulative times
  after one lap number and after a list of them, and the entries a driver collects over a
  list of lap numbers.\<close>

fun entries :: "int \<Rightarrow> nat \<Rightarrow> (nat \<times> real) list \<Rightarrow> nat \<Rightarrow> PositionData list" where
  "entries lapNum idx [] n = []"
| "entries lapNum idx (entry # rest) n =
     (if fst entry = n then [\<lparr>pd_lap = lapNum, pd_position = idx + 1\<rparr>] else [])
     @ entries lapNum (idx + 1) rest n"

definition groupAt :: "(int \<times> (nat \<times> real option) list) list \<Rightarrow> int \<Rightarrow> (nat \<times> real option) list" where
  "groupAt lapGroups k = (case map_of lapGroups k of None \<Rightarrow> [] | Some g \<Rightarrow> g)"

definition cumStep ::
  "(int \<times> (nat \<times> real option) list) list \<Rightarrow> (nat \<times> real) list \<Rightarrow> int \<Rightarrow> (nat \<times> real) list" where
  "cumStep lapGroups c k = foldl addDuration c (groupAt lapGroups k)"

fun posRun ::
  "(int \<times> (nat \<times> real option) list) list \<Rightarrow> int list \<Rightarrow> (nat \<times> real) list
   \<Rightarrow> (nat \<times> DriverPositions) list \<Rightarrow> (nat \<times> DriverPositions) list" where
  "posRun lapGroups [] c pm = pm"
| "posRun lapGroups (k # ks) c pm =
     posRun lapGroups ks (cumStep lapGroups c k)
       (pushPositions k (sort_key snd (cumStep lapGroups c k)) 0 pm)"

fun contrib ::
  "(int \<times> (nat \<times> real option) list) list \<Rightarrow> (nat \<times> real) list \<Rightarrow> int list \<Rightarrow> nat
   \<Rightarrow> PositionData list" where
  "contrib lapGroups c [] n = []"
| "contrib lapGroups c (k # ks) n =
     entries k 0 (sort_key snd (cumStep lapGroups c k)) n
     @ contrib lapGroups (cumStep lapGroups c k) ks n"

definition positionsOf :: "(nat \<times> DriverPositions) list \<Rightarrow> nat \<Rightarrow> PositionData list" where
  "positionsOf pm n = (case map_of pm n of None \<Rightarrow> [] | Some d \<Rightarrow> dp_positions d)"

text \<open>The cumulative time of a driver, 0 for a driver without one; a position map whose
  values carry their own key; the position map at the end of the loop; the laps up to a
  lap number; and the table of one lap number in the memo's result.\<close>

definition totalOf :: "(nat \<times> real) list \<Rightarrow> nat \<Rightarrow> real" where
  "totalOf c n = (case map_of c n of None \<Rightarrow> 0 | Some t \<Rightarrow> t)"

definition wfmap :: "(nat \<times> DriverPositions) list \<Rightarrow> bool" where
  "wfmap pm = (distinct (map fst pm) \<and> (\<forall>p\<in>set pm. dp_driverNumber (snd p) = fst p))"

definition finalMap :: "Driver list \<Rightarrow> Lap list \<Rightarrow> (nat \<times> DriverPositions) list" where
  "finalMap drivers laps = posRun (lapGroupsOf laps) (lapNumbers laps) [] (initPositionMap drivers)"

definition lapsUpTo :: "int \<Rightarrow> Lap list \<Rightarrow> Lap list" where
  "lapsUpTo L laps = filter (\<lambda>l. lap_number l \<le> L) laps"

definition positionTable :: "Driver list \<Rightarrow> Lap list \<Rightarrow> int \<Rightarrow> js_error + (nat \<times> nat) list" where
  "positionTable drivers laps L =
     (case driverPositions (Some drivers) (Some laps) of
        Inl e \<Rightarrow> Inl e
      | Inr res \<Rightarrow> Inr (positionsAtLap res L))"

text \<open>Lap records for concrete runs. Drivers 44 and 16 over three laps with equal totals
  after lap 3; the same drivers with a null duration for 44 at lap 5; and a pit-out lap,
  a flying lap and a null lap of driver 44.\<close>

definition mkLap :: "nat \<Rightarrow> int \<Rightarrow> real option \<Rightarrow> bool \<Rightarrow> Lap" where
  "mkLap n k d pit =
     \<lparr>date_start = [], lap_driver_number = n, is_pit_out_lap = pit, lap_duration = d,
      lap_number = k\<rparr>"

definition lapsTie :: "Lap list" where
  "lapsTie =
     [mkLap 44 1 (Some 60) False, mkLap 16 1 (Some 60) False,
      mkLap 44 2 (Some 61) False, mkLap 16 2 (Some 60) False,
      mkLap 44 3 (Some 59) False, mkLap 16 3 (Some 60) False]"


definition lapsPit :: "Lap list" where
  "lapsPit = [mkLap 44 1 (Some 95) True, mkLap 44 2 (Some 80) False, mkLap 44 3 None False]"

section \<open>Properties of the kinematics extraction\<close>

lemma apexLoop_keep:
  "\<forall>d\<in>set ds. \<not> speed d < v \<Longrightarrow> apexLoop ds i (Some v) mi = (Some v, mi)"
  by (induction ds arbitrary: i) auto

lemma apexLoop_unique_min:
  "k < length ds \<Longrightarrow> \<forall>j<length ds. j \<noteq> k \<longrightarrow> speed (ds ! k) < speed (ds ! j) \<Longrightarrow>
   below (speed (ds ! k)) m \<Longrightarrow> apexLoop ds i m mi = (Some (speed (ds ! k)), i + k)"
proof (induction ds arbitrary: k i m mi)
  case Nil
  then show ?case by simp
next
  case (Cons d ds)
  show ?case
  proof (cases k)
    case 0
    have "\<forall>x\<in>set ds. \<not> speed x < speed d"
    proof
      fix x assume "x \<in> set ds"
      then obtain j where "j < length ds" "ds ! j = x" by (auto simp: in_set_conv_nth)
      with Cons.prems(2) 0 have "speed d < speed x" by fastforce
      then show "\<not> speed x < speed d" by simp
    qed
    with 0 Cons.prems(3) show ?thesis by (simp add: apexLoop_keep)
  next
    case (Suc k')
    have k': "k' < length ds" using Cons.prems(1) Suc by simp
    have uniq: "\<forall>j<length ds. j \<noteq> k' \<longrightarrow> speed (ds ! k') < speed (ds ! j)"
    proof (intro allI impI)
      fix j assume "j < length ds" "j \<noteq> k'"
      with Cons.prems(2) [rule_format, of "Suc j"] Suc show "speed (ds ! k') < speed (ds ! j)" by simp
    qed
    have lt: "speed (ds ! k') < speed d"
      using Cons.prems(2) [rule_format, of 0] Suc by simp
    have b: "below (speed (ds ! k')) m" using Cons.prems(3) Suc by simp
    show ?thesis
    proof (cases "below (speed d) m")
      case True
      then show ?thesis
        using Cons.IH [OF k' uniq, of "Some (speed d)" "i + 1" i] lt Suc by simp
    next
      case False
      then show ?thesis
        using Cons.IH [OF k' uniq b, of "i + 1" mi] Suc by simp
    qed
  qed
qed

lemma apexLoop_index:
  "snd (apexLoop ds i m mi) = mi \<or> (i \<le> snd (apexLoop ds i m mi) \<and> snd (apexLoop ds i m mi) < i + length ds)"
proof (induction ds arbitrary: i m mi)
  case Nil
  then show ?case by simp
next
  case (Cons d ds)
  show ?case
  proof (cases "below (speed d) m")
    case True
    then show ?thesis using Cons.IH [of "i + 1" "Some (speed d)" i] by auto
  next
    case False
    then show ?thesis using Cons.IH [of "i + 1" m mi] by auto
  qed
qed

lemma findApex_le_length: "snd (findApex w) \<le> length w"
  using apexLoop_index [of w 0 None 0] by (auto simp: findApex_def)

lemma brakeLoop_none:
  "minSpeedIdx \<le> length w \<Longrightarrow> \<forall>j. i \<le> j \<and> j < minSpeedIdx \<longrightarrow> \<not> brake (w ! j) > 10 \<Longrightarrow>
   brakeLoop w minSpeedIdx i b = Inr b"
proof (induction w minSpeedIdx i b rule: brakeLoop.induct)
  case (1 w minSpeedIdx i b)
  show ?case
  proof (cases "i < minSpeedIdx")
    case True
    with 1 show ?thesis by (subst brakeLoop.simps) auto
  next
    case False
    then show ?thesis by (subst brakeLoop.simps) simp
  qed
qed

lemma brakeLoop_first:
  "i \<le> f \<Longrightarrow> f < minSpeedIdx \<Longrightarrow> f < length w \<Longrightarrow> brake (w ! f) > 10 \<Longrightarrow>
   \<forall>j. i \<le> j \<and> j < f \<longrightarrow> \<not> brake (w ! j) > 10 \<Longrightarrow>
   brakeLoop w minSpeedIdx i b = Inr f"
proof (induction w minSpeedIdx i b rule: brakeLoop.induct)
  case (1 w minSpeedIdx i b)
  show ?case
  proof (cases "i = f")
    case True
    with 1 show ?thesis by (subst brakeLoop.simps) simp
  next
    case False
    with 1 show ?thesis by (subst brakeLoop.simps) auto
  qed
qed

lemma throttleLoop_none:
  "\<forall>j. i \<le> j \<and> j < length w \<longrightarrow> \<not> throttle (w ! j) > 50 \<Longrightarrow> throttleLoop w i t = t"
proof (induction w i t rule: throttleLoop.induct)
  case (1 w i t)
  show ?case
  proof (cases "i < length w")
    case True
    with 1 show ?thesis by (subst throttleLoop.simps) auto
  next
    case False
    then show ?thesis by (subst throttleLoop.simps) simp
  qed
qed

lemma throttleLoop_first:
  "i \<le> f \<Longrightarrow> f < length w \<Longrightarrow> throttle (w ! f) > 50 \<Longrightarrow>
   \<forall>j. i \<le> j \<and> j < f \<longrightarrow> \<not> throttle (w ! j) > 50 \<Longrightarrow>
   throttleLoop w i t = f"
proof (induction w i t rule: throttleLoop.induct)
  case (1 w i t)
  show ?case
  proof (cases "i = f")
    case True
    with 1 show ?thesis by (subst throttleLoop.simps) simp
  next
    case False
    with 1 show ?thesis by (subst throttleLoop.simps) auto
  qed
qed

text \<open>
  Claim C1, as amended. In a window with a unique minimum of speed at index \<open>k\<close>, where
  \<open>5 \<le> k\<close> and \<open>k + 5\<close> is still an index of the window, brake over 10 exactly on
  \<open>[k - 5, k)\<close> and throttle over 50 exactly on \<open>(k, k + 5]\<close>, the extraction puts the
  apex at \<open>k\<close> and the braking start at \<open>k - 5\<close>, so the braking distance is
  \<open>5 * metersPerSample\<close>. The throttle scan starts at the apex and stops at the first
  sample over 50, which is \<open>k + 1\<close>: the throttle-on distance is \<open>1 * metersPerSample\<close>,
  not 5 times it.
\<close>

theorem kinematics_round_trip:
  assumes len: "10 \<le> length w"
    and k5: "5 \<le> k" and k5': "k + 5 < length w"
    and uniq: "\<forall>i<length w. i \<noteq> k \<longrightarrow> speed (w ! k) < speed (w ! i)"
    and br: "\<forall>i<length w. (brake (w ! i) > 10) = (k \<le> i + 5 \<and> i < k)"
    and th: "\<forall>i<length w. (throttle (w ! i) > 50) = (k < i \<and> i \<le> k + 5)"
  shows "cornerIndices w = Inr \<lparr>apexIdx = k, brakingStart = k - 5, throttleOn = k + 1\<rparr>
       \<and> (\<exists>r. analyzeWindow drv w = Inr r
              \<and> brakingDistance r = 5 * metersPerSample
              \<and> throttleOnDistance r = 1 * metersPerSample)"
proof -
  have k: "k < length w" using k5' by simp
  have apex: "findApex w = (Some (speed (w ! k)), k)"
    using apexLoop_unique_min [OF k uniq, of None 0 0] by (simp add: findApex_def)
  have b: "brakeLoop w k 0 0 = Inr (k - 5)"
  proof (rule brakeLoop_first)
    show "brake (w ! (k - 5)) > 10" using br k k5 by simp
    show "\<forall>j. 0 \<le> j \<and> j < k - 5 \<longrightarrow> \<not> brake (w ! j) > 10" using br k by auto
  qed (use k k5 in auto)
  have t: "throttleLoop w k k = k + 1"
  proof (rule throttleLoop_first)
    show "throttle (w ! (k + 1)) > 50" using th k5' by simp
    show "\<forall>j. k \<le> j \<and> j < k + 1 \<longrightarrow> \<not> throttle (w ! j) > 50" using th k by auto
  qed (use k5' in auto)
  have ci: "cornerIndices w = Inr \<lparr>apexIdx = k, brakingStart = k - 5, throttleOn = k + 1\<rparr>"
    by (simp add: cornerIndices_def apex b t)
  show ?thesis using k5 by (simp add: ci analyzeWindow_def)
qed

theorem kinematics_round_trip_witness:
  "10 \<le> length roundTripWindow \<and> (5::nat) \<le> 5 \<and> 5 + 5 < length roundTripWindow
   \<and> brakeIndices roundTripWindow = [0, 1, 2, 3, 4]
   \<and> throttleIndices roundTripWindow = [6, 7, 8, 9, 10]
   \<and> cornerIndices roundTripWindow = Inr \<lparr>apexIdx = 5, brakingStart = 0, throttleOn = 6\<rparr>
   \<and> map_sum id brakingDistance (analyzeWindow someDriver roundTripWindow) = Inr 135
   \<and> map_sum id throttleOnDistance (analyzeWindow someDriver roundTripWindow) = Inr 27"
proof -
  have len: "length roundTripWindow = 11" by (simp add: roundTripWindow_def)
  have h1: "10 \<le> length roundTripWindow" and h3: "5 + 5 < length roundTripWindow"
    by (simp_all add: len)
  have h2: "(5::nat) \<le> 5" by simp
  have nths: "roundTripWindow ! 0 = \<lparr>brake = 100, speed = 125, throttle = 0\<rparr>"
    "roundTripWindow ! Suc 0 = \<lparr>brake = 100, speed = 116, throttle = 0\<rparr>"
    "roundTripWindow ! 2 = \<lparr>brake = 100, speed = 109, throttle = 0\<rparr>"
    "roundTripWindow ! 3 = \<lparr>brake = 100, speed = 104, throttle = 0\<rparr>"
    "roundTripWindow ! 4 = \<lparr>brake = 100, speed = 101, throttle = 0\<rparr>"
    "roundTripWindow ! 5 = \<lparr>brake = 0, speed = 100, throttle = 0\<rparr>"
    "roundTripWindow ! 6 = \<lparr>brake = 0, speed = 101, throttle = 100\<rparr>"
    "roundTripWindow ! 7 = \<lparr>brake = 0, speed = 104, throttle = 100\<rparr>"
    "roundTripWindow ! 8 = \<lparr>brake = 0, speed = 109, throttle = 100\<rparr>"
    "roundTripWindow ! 9 = \<lparr>brake = 0, speed = 116, throttle = 100\<rparr>"
    "roundTripWindow ! 10 = \<lparr>brake = 0, speed = 125, throttle = 100\<rparr>"
    by (simp_all add: roundTripWindow_def)
  have cases: "i = 0 \<or> i = 1 \<or> i = 2 \<or> i = 3 \<or> i = 4 \<or> i = 5 \<or> i = 6 \<or> i = 7
      \<or> i = 8 \<or> i = 9 \<or> i = 10" if "i < 11" for i :: nat
    using that by arith
  have h4: "\<forall>i<length roundTripWindow. i \<noteq> 5 \<longrightarrow> speed (roundTripWindow ! 5) < speed (roundTripWindow ! i)"
    unfolding len by (auto dest!: cases simp: nths)
  have h5: "\<forall>i<length roundTripWindow. (brake (roundTripWindow ! i) > 10) = (5 \<le> i + 5 \<and> i < 5)"
    unfolding len by (auto dest!: cases simp: nths)
  have h6: "\<forall>i<length roundTripWindow. (throttle (roundTripWindow ! i) > 50) = (5 < i \<and> i \<le> 5 + 5)"
    unfolding len by (auto dest!: cases simp: nths)
  have bi: "brakeIndices roundTripWindow = [0, 1, 2, 3, 4]"
    by (simp add: brakeIndices_def roundTripWindow_def upt_rec)
  have ti: "throttleIndices roundTripWindow = [6, 7, 8, 9, 10]"
    by (simp add: throttleIndices_def roundTripWindow_def upt_rec)
  from kinematics_round_trip [OF h1 h2 h3 h4 h5 h6, of someDriver]
  show ?thesis using h1 h3 bi ti by (auto simp: metersPerSample_def)
qed

text \<open>The window of the round-trip property as the specification states it: the code
  reports a throttle-on distance of 27, one sample, where the claim expects 135.\<close>

theorem round_trip_throttle_counterexample:
  "length roundTripWindow = 11
   \<and> map speed roundTripWindow = [125, 116, 109, 104, 101, 100, 101, 104, 109, 116, 125]
   \<and> brakeIndices roundTripWindow = [0, 1, 2, 3, 4]
   \<and> throttleIndices roundTripWindow = [6, 7, 8, 9, 10]
   \<and> fst (findApex roundTripWindow) = Some 100 \<and> snd (findApex roundTripWindow) = 5
   \<and> map_sum id throttleOnDistance (analyzeWindow someDriver roundTripWindow) = Inr 27
   \<and> 27 \<noteq> 5 * metersPerSample"
  by (simp add: roundTripWindow_def brakeIndices_def throttleIndices_def upt_rec findApex_def
      analyzeWindow_def cornerIndices_def brakeLoop.simps throttleLoop.simps metersPerSample_def)

text \<open>
  Claim C3, as amended. When no sample before the apex index has brake over 10, the loop
  never assigns \<open>brakingStartIdx\<close>, which keeps its initial value 0, the window start.
  The braking distance is then the whole stretch from the window start to the apex,
  \<open>apexIdx * metersPerSample\<close>; it is 0 only when the apex is the first sample.
\<close>

theorem no_braking_defaults_to_window_start:
  assumes nb: "\<forall>j<snd (findApex w). \<not> brake (w ! j) > 10"
  shows "\<exists>ix r. cornerIndices w = Inr ix \<and> apexIdx ix = snd (findApex w) \<and> brakingStart ix = 0
           \<and> analyzeWindow drv w = Inr r
           \<and> brakingDistance r = int (apexIdx ix) * metersPerSample"
proof -
  have "brakeLoop w (snd (findApex w)) 0 0 = Inr 0"
    by (rule brakeLoop_none) (use nb findApex_le_length in auto)
  then show ?thesis by (simp add: cornerIndices_def analyzeWindow_def Let_def)
qed

theorem no_braking_witness:
  "brakeIndices noBrakeWindow = []
   \<and> snd (findApex noBrakeWindow) = 5
   \<and> map_sum id brakingStart (cornerIndices noBrakeWindow) = Inr 0
   \<and> map_sum id brakingDistance (analyzeWindow someDriver noBrakeWindow) = Inr (5 * metersPerSample)"
proof -
  have bi: "brakeIndices noBrakeWindow = []"
    by (simp add: brakeIndices_def noBrakeWindow_def upt_rec)
  have ap: "snd (findApex noBrakeWindow) = 5"
    by (simp add: findApex_def noBrakeWindow_def)
  have "\<forall>d\<in>set noBrakeWindow. \<not> brake d > 10" by (simp add: noBrakeWindow_def)
  then have h: "\<forall>j<snd (findApex noBrakeWindow). \<not> brake (noBrakeWindow ! j) > 10"
    using findApex_le_length [of noBrakeWindow] by (metis less_le_trans nth_mem)
  from no_braking_defaults_to_window_start [OF h, of someDriver]
  show ?thesis using bi ap by auto
qed

text \<open>Without braking and with the apex at index 5 the reported braking distance is 135.\<close>

theorem no_braking_distance_counterexample:
  "length noBrakeWindow = 10
   \<and> brakeIndices noBrakeWindow = []
   \<and> snd (findApex noBrakeWindow) = 5
   \<and> map_sum id brakingStart (cornerIndices noBrakeWindow) = Inr 0
   \<and> map_sum id brakingDistance (analyzeWindow someDriver noBrakeWindow) = Inr 135"
  by (simp add: noBrakeWindow_def brakeIndices_def upt_rec findApex_def
      analyzeWindow_def cornerIndices_def brakeLoop.simps throttleLoop.simps metersPerSample_def)

section \<open>Properties of the window extraction and of the driver loops\<close>








lemmas double_eval = js_mul_def js_div_def toDouble_def ulp_def binExponent_def
  roundHalfEven_def compute_floorlog






subsection \<open>Rounding in the aligner\<close>

text \<open>Rounding to a double moves a positive number by at most half a unit in the last
  place, which is at most the \<open>2\<^sup>5\<^sup>3\<close>-th part of the number. For equal sample counts
  the centre the aligner computes is therefore the corner index or the index before it.\<close>

lemma roundHalfEven_error: "\<bar>of_int (roundHalfEven q) - q\<bar> \<le> 1 / 2"
proof -
  have "of_int \<lfloor>q\<rfloor> \<le> q" "q < of_int \<lfloor>q\<rfloor> + 1" by linarith+
  then show ?thesis by (auto simp: roundHalfEven_def Let_def)
qed

lemma binExponent_bounds:
  assumes "0 < x"
  shows "2 powi binExponent x \<le> x \<and> x < 2 powi (binExponent x + 1)"
proof (cases "1 \<le> x")
  case True
  have two: "(1::nat) < 2" by simp
  let ?m = "nat \<lfloor>x\<rfloor>"
  let ?k = "floorlog 2 ?m"
  have m: "0 < ?m" using True by simp
  have b: "2 ^ (?k - 1) \<le> ?m" "?m < 2 ^ ?k"
    using floorlog_bounds [OF m two] by blast+
  have k: "0 < ?k" using m by (simp add: floorlog_eq_zero_iff [of 2 ?m] zero_less_iff_neq_zero)
  have e: "binExponent x = int (?k - 1)" using True assms k by (simp add: binExponent_def)
  have mx: "real ?m \<le> x" "x < real ?m + 1" using True by linarith+
  have "real (2 ^ (?k - 1)) \<le> real ?m" using b(1) by (rule of_nat_mono)
  then have "(2::real) ^ (?k - 1) \<le> real ?m" by simp
  then have lo: "(2::real) ^ (?k - 1) \<le> x" using mx by linarith
  have "?m + 1 \<le> 2 ^ ?k" using b(2) by linarith
  then have "real (?m + 1) \<le> real (2 ^ ?k)" by (rule of_nat_mono)
  then have "real ?m + 1 \<le> 2 ^ ?k" by simp
  then have hi: "x < (2::real) ^ ?k" using mx by linarith
  have "int (?k - 1) + 1 = int ?k" using k by simp
  then have "(2::real) powi (int (?k - 1) + 1) = 2 ^ ?k" by (simp only: power_int_of_nat)
  with lo hi show ?thesis by (simp add: e)
next
  case False
  have two: "(1::nat) < 2" by simp
  let ?y = "1 / x"
  let ?m = "nat (\<lceil>?y\<rceil> - 1)"
  let ?q = "floorlog 2 ?m"
  have y: "1 < ?y" using False assms by simp
  then have c: "2 \<le> \<lceil>?y\<rceil>" by linarith
  then have m: "0 < ?m" by simp
  have b: "2 ^ (?q - 1) \<le> ?m" "?m < 2 ^ ?q"
    using floorlog_bounds [OF m two] by blast+
  have q: "0 < ?q" using m by (simp add: floorlog_eq_zero_iff [of 2 ?m] zero_less_iff_neq_zero)
  have e: "binExponent x = - int ?q" using False assms by (simp add: binExponent_def)
  have my: "real ?m < ?y" "?y \<le> real ?m + 1" using c by linarith+
  have "real (2 ^ (?q - 1)) \<le> real ?m" using b(1) by (rule of_nat_mono)
  then have "(2::real) ^ (?q - 1) \<le> real ?m" by simp
  then have lo: "(2::real) ^ (?q - 1) < ?y" using my by linarith
  have "?m + 1 \<le> 2 ^ ?q" using b(2) by linarith
  then have "real (?m + 1) \<le> real (2 ^ ?q)" by (rule of_nat_mono)
  then have "real ?m + 1 \<le> 2 ^ ?q" by simp
  then have hi: "?y \<le> (2::real) ^ ?q" using my by linarith
  have p1: "(2::real) powi (- int ?q) = 1 / 2 ^ ?q"
    by (simp add: power_int_minus field_simps)
  have "- int ?q + 1 = - int (?q - 1)" using q by simp
  then have "(2::real) powi (- int ?q + 1) = 2 powi (- int (?q - 1))" by (simp only:)
  also have "\<dots> = 1 / 2 ^ (?q - 1)" by (simp add: power_int_minus field_simps)
  finally have p2: "(2::real) powi (- int ?q + 1) = 1 / 2 ^ (?q - 1)" .
  have "1 / 2 ^ ?q \<le> x" using hi assms by (simp add: field_simps)
  moreover have "x < 1 / 2 ^ (?q - 1)" using lo assms by (simp add: field_simps)
  ultimately show ?thesis unfolding e p1 p2 by blast
qed

lemma toDouble_error:
  assumes "0 < x"
  shows "\<bar>toDouble x - x\<bar> \<le> x / 2 ^ 53"
proof -
  let ?e = "binExponent x"
  have u: "0 < ulp x" by (simp add: ulp_def)
  have "ulp x = 2 powi ?e / 2 ^ 52"
    by (simp add: ulp_def power_int_diff)
  then have ux: "ulp x \<le> x / 2 ^ 52"
    using binExponent_bounds [OF assms] by (simp add: divide_right_mono)
  have "toDouble x - x = (of_int (roundHalfEven (x / ulp x)) - x / ulp x) * ulp x"
    using assms u by (simp add: toDouble_def field_simps)
  then have "\<bar>toDouble x - x\<bar> = \<bar>of_int (roundHalfEven (x / ulp x)) - x / ulp x\<bar> * ulp x"
    using u by (simp add: abs_mult)
  also have "\<dots> \<le> (1 / 2) * ulp x"
    using roundHalfEven_error [of "x / ulp x"] u by (intro mult_right_mono) simp_all
  also have "\<dots> \<le> (1 / 2) * (x / 2 ^ 52)" using ux by simp
  also have "\<dots> = x / 2 ^ 53" by simp
  finally show ?thesis .
qed

lemma center_within_one:
  assumes i: "0 < idx" and n: "0 < n" and small: "idx < 2 ^ 51"
  shows "centerIdxOf idx n n = int idx - 1 \<or> centerIdxOf idx n n = int idx"
proof -
  let ?u = "(1::real) / 2 ^ 53"
  let ?r = "real idx / real n"
  let ?a = "toDouble ?r"
  let ?p = "real n * ?a"
  let ?b = "toDouble ?p"
  have r: "0 < ?r" using i n by simp
  have ea: "\<bar>?a - ?r\<bar> \<le> ?r * ?u" using toDouble_error [OF r] by simp
  have "?p - real idx = real n * (?a - ?r)" using n by (simp add: field_simps)
  then have "\<bar>?p - real idx\<bar> = real n * \<bar>?a - ?r\<bar>" by (simp add: abs_mult)
  also have "\<dots> \<le> real n * (?r * ?u)" using ea by (intro mult_left_mono) simp_all
  also have "\<dots> = real idx * ?u" using n by simp
  finally have ep: "\<bar>?p - real idx\<bar> \<le> real idx * ?u" .
  have iu: "real idx * ?u < 1 / 4"
  proof -
    have "real idx < real (2 ^ 51)" using small by (simp only: of_nat_less_iff)
    then show ?thesis by simp
  qed
  have i1: "1 \<le> real idx" using i by simp
  have p: "0 < ?p" using ep iu i1 by linarith
  have pb: "?p \<le> real idx + 1 / 4" using ep iu by linarith
  have "\<bar>?b - ?p\<bar> \<le> ?p * ?u" using toDouble_error [OF p] by simp
  also have "\<dots> \<le> (real idx + 1 / 4) * ?u" using pb by (intro mult_right_mono) simp_all
  also have "\<dots> < 1 / 4 + 1 / 4" using iu by (simp add: algebra_simps)
  finally have eb: "\<bar>?b - ?p\<bar> < 1 / 2" by simp
  have "real idx - 1 < ?b" "?b < real idx + 1"
    using ep iu eb by linarith+
  then have "int idx - 1 \<le> \<lfloor>?b\<rfloor>" "\<lfloor>?b\<rfloor> \<le> int idx"
    by (simp_all add: le_floor_iff floor_le_iff)
  then show ?thesis by (auto simp: centerIdxOf_def js_mul_def js_div_def)
qed

text \<open>
  Claim C4. With a reference lap and a target lap of 52 samples each and a corner at index
  30, the quotient \<open>30 / 52\<close> rounds down, the product with 52 stays below 30, and the
  window is centred at index 29, not at the index of the corner.
\<close>

theorem equal_counts_center_off_by_one:
  "centerIdxOf 30 52 52 = 29"
  by (simp add: centerIdxOf_def double_eval)

section \<open>Properties of the corner detection\<close>


lemma index_cornerAt [simp]: "index (cornerAt points i) = i"
  by (simp add: cornerAt_def Let_def)
























text \<open>
  Claim C6. A sequence of fewer than \<open>4 * w\<close> position samples, \<open>w\<close> being the window size
  \<open>max(10, floor(N / 30))\<close>, gives the empty catalog, and no exception: the loop starts at
  \<open>2 * w\<close>, which is not below \<open>N - 2 * w\<close>, so its body never runs.
\<close>

theorem short_track_empty_catalog:
  assumes short: "length points < 4 * windowSizeOf points"
  shows "detectCorners points = Inr []"
proof -
  let ?w = "windowSizeOf points"
  have "\<not> int (?w * 2) < int (length points) - int (?w * 2)"
    using short by simp
  then have "detectLoop points (?w * 2) [] = Inr []"
    by (subst detectLoop.simps) simp
  then show ?thesis
    by (simp add: detectCorners_def js_slice_def)
qed

theorem short_track_empty_catalog_witness:
  "length shortTrack = 39 \<and> length shortTrack < 4 * windowSizeOf shortTrack
   \<and> detectCorners shortTrack = Inr []"
proof -
  have l: "length shortTrack = 39" by (simp add: shortTrack_def)
  then have h: "length shortTrack < 4 * windowSizeOf shortTrack"
    by (simp add: windowSizeOf_def)
  from short_track_empty_catalog [OF h] l h show ?thesis by simp
qed



section \<open>Properties of the position reconstruction\<close>

subsection \<open>Groups\<close>

lemma lapGroupsOf_snoc: "lapGroupsOf (xs @ [x]) = groupStep (lapGroupsOf xs) x"
  by (simp add: lapGroupsOf_def)

lemma map_of_lapGroupsOf:
  "map_of (lapGroupsOf laps) k =
     (if k \<in> lap_number ` set laps
      then Some (map (\<lambda>l. (lap_driver_number l, lap_duration l)) (filter (\<lambda>l. lap_number l = k) laps))
      else None)"
proof (induction laps arbitrary: k rule: rev_induct)
  case Nil
  then show ?case by (simp add: lapGroupsOf_def)
next
  case (snoc x xs)
  note here = snoc [of "lap_number x"] and there = snoc [of k]
  show ?case
  proof (cases "lap_number x \<in> lap_number ` set xs")
    case True
    with here there show ?thesis
      by (cases "k = lap_number x") (simp_all add: lapGroupsOf_snoc groupStep_def update_conv')
  next
    case False
    then have "filter (\<lambda>l. lap_number l = lap_number x) xs = []"
      by (fastforce simp: filter_empty_conv image_iff)
    with False here there show ?thesis
      by (cases "k = lap_number x") (simp_all add: lapGroupsOf_snoc groupStep_def update_conv')
  qed
qed

lemma distinct_lapGroupsOf: "distinct (map fst (lapGroupsOf laps))"
proof (induction laps rule: rev_induct)
  case Nil
  then show ?case by (simp add: lapGroupsOf_def)
next
  case (snoc x xs)
  then show ?case
    by (simp add: lapGroupsOf_snoc groupStep_def distinct_update split: option.splits)
qed

lemma set_keys_lapGroupsOf: "set (map fst (lapGroupsOf laps)) = lap_number ` set laps"
proof -
  have "dom (map_of (lapGroupsOf laps)) = lap_number ` set laps"
    by (auto simp: dom_def map_of_lapGroupsOf)
  then show ?thesis by (simp add: dom_map_of_conv_image_fst)
qed

lemma lapNumbers_props:
  "sorted (lapNumbers laps)" "distinct (lapNumbers laps)"
  "set (lapNumbers laps) = lap_number ` set laps"
  using distinct_lapGroupsOf [of laps] set_keys_lapGroupsOf [of laps]
  by (simp_all add: lapNumbers_def)

lemma groupAt_lapGroupsOf:
  "groupAt (lapGroupsOf laps) k =
     map (\<lambda>l. (lap_driver_number l, lap_duration l)) (filter (\<lambda>l. lap_number l = k) laps)"
proof (cases "k \<in> lap_number ` set laps")
  case True
  then show ?thesis by (simp add: groupAt_def map_of_lapGroupsOf)
next
  case False
  then have "filter (\<lambda>l. lap_number l = k) laps = []"
    by (auto simp: filter_empty_conv)
  with False show ?thesis by (simp add: groupAt_def map_of_lapGroupsOf)
qed

subsection \<open>The loop never takes the error branch\<close>

lemma processLaps_pure:
  "\<forall>k\<in>set ks. map_of g k \<noteq> None \<Longrightarrow>
   processLaps g ks (c, pm) = Inr (foldl (cumStep g) c ks, posRun g ks c pm)"
proof (induction ks arbitrary: c pm)
  case Nil
  then show ?case by simp
next
  case (Cons k ks)
  from Cons.prems obtain grp where grp: "map_of g k = Some grp" by auto
  then have "processLap g (c, pm) k
      = Inr (cumStep g c k, pushPositions k (sort_key snd (cumStep g c k)) 0 pm)"
    by (simp add: processLap_def cumStep_def groupAt_def Let_def)
  with Cons show ?case by simp
qed

lemma processLaps_lapGroupsOf:
  "set ks \<subseteq> set (lapNumbers laps) \<Longrightarrow>
   processLaps (lapGroupsOf laps) ks (c, pm)
     = Inr (foldl (cumStep (lapGroupsOf laps)) c ks, posRun (lapGroupsOf laps) ks c pm)"
proof (rule processLaps_pure)
  assume "set ks \<subseteq> set (lapNumbers laps)"
  then show "\<forall>k\<in>set ks. map_of (lapGroupsOf laps) k \<noteq> None"
    by (auto simp: lapNumbers_props(3) map_of_lapGroupsOf)
qed

lemma cumulativeOver_pure:
  "set ks \<subseteq> set (lapNumbers laps) \<Longrightarrow>
   cumulativeOver laps ks = foldl (cumStep (lapGroupsOf laps)) [] ks"
  by (simp add: cumulativeOver_def processLaps_lapGroupsOf)

subsection \<open>Entries pushed by one pass\<close>

lemma keys_pushPositions: "map fst (pushPositions L s idx pm) = map fst pm"
proof (induction s arbitrary: idx pm)
  case Nil
  then show ?case by simp
next
  case (Cons e s)
  show ?case
  proof (cases "map_of pm (fst e)")
    case None
    with Cons show ?thesis by simp
  next
    case (Some dd)
    then have "fst e \<in> set (map fst pm)" by (metis map_of_eq_None_iff option.distinct(1) set_map)
    with Some Cons show ?thesis by (simp add: update_keys)
  qed
qed

lemma positionsOf_update:
  "positionsOf (AList.update k d pm) n = (if n = k then dp_positions d else positionsOf pm n)"
  by (simp add: positionsOf_def update_conv')

lemma positionsOf_notin: "n \<notin> fst ` set pm \<Longrightarrow> positionsOf pm n = []"
  by (simp add: positionsOf_def map_of_eq_None_iff [THEN iffD2])

lemma positionsOf_pushPositions:
  "positionsOf (pushPositions L s idx pm) n =
     (if n \<in> fst ` set pm then positionsOf pm n @ entries L idx s n else [])"
proof (induction s arbitrary: idx pm)
  case Nil
  then show ?case by (simp add: positionsOf_notin)
next
  case (Cons e s)
  show ?case
  proof (cases "map_of pm (fst e)")
    case None
    then have "fst e \<notin> fst ` set pm" by (simp add: map_of_eq_None_iff)
    with None Cons show ?thesis by auto
  next
    case (Some dd)
    then have in_pm: "fst e \<in> fst ` set pm"
      by (metis map_of_eq_None_iff option.distinct(1))
    let ?dd = "dd \<lparr> dp_positions := dp_positions dd @ [\<lparr>pd_lap = L, pd_position = idx + 1\<rparr>] \<rparr>"
    have dom: "fst ` set (AList.update (fst e) ?dd pm) = fst ` set pm"
      using in_pm by (auto simp: dom_update)
    have pdd: "positionsOf pm (fst e) = dp_positions dd"
      using Some by (simp add: positionsOf_def)
    show ?thesis
      using Some Cons [of "idx + 1" "AList.update (fst e) ?dd pm"] dom pdd in_pm
      by (auto simp: positionsOf_update)
  qed
qed

lemma keys_posRun: "map fst (posRun g ks c pm) = map fst pm"
  by (induction ks arbitrary: c pm) (simp_all add: keys_pushPositions)

lemma set_keys_pushPositions: "fst ` set (pushPositions L s idx pm) = fst ` set pm"
  using keys_pushPositions [of L s idx pm] by (metis set_map)

lemma positionsOf_posRun:
  "positionsOf (posRun g ks c pm) n =
     (if n \<in> fst ` set pm then positionsOf pm n @ contrib g c ks n else [])"
proof (induction ks arbitrary: c pm)
  case Nil
  then show ?case by (simp add: positionsOf_notin)
next
  case (Cons k ks)
  then show ?case
    by (simp add: positionsOf_pushPositions set_keys_pushPositions)
qed

subsection \<open>The position map\<close>


lemma set_alist_update: "set (AList.update k v al) \<subseteq> insert (k, v) (set al)"
  by (induction al) auto

lemma wfmap_update:
  "wfmap pm \<Longrightarrow> dp_driverNumber d = k \<Longrightarrow> wfmap (AList.update k d pm)"
proof -
  assume wf: "wfmap pm" and d: "dp_driverNumber d = k"
  have "dp_driverNumber (snd p) = fst p" if "p \<in> set (AList.update k d pm)" for p
  proof -
    from that set_alist_update [of k d pm] have "p = (k, d) \<or> p \<in> set pm" by auto
    with wf d show ?thesis by (auto simp: wfmap_def)
  qed
  with wf show ?thesis by (simp add: wfmap_def distinct_update)
qed

lemma initPositionMap_snoc:
  "initPositionMap (ds @ [d]) =
     AList.update (driver_number d)
       \<lparr> dp_driverNumber = driver_number d, dp_acronym = name_acronym d,
         dp_color = CHR ''#'' # team_colour d, dp_positions = [] \<rparr> (initPositionMap ds)"
  by (simp add: initPositionMap_def)

lemma initPositionMap_props:
  "wfmap (initPositionMap ds) \<and> fst ` set (initPositionMap ds) = driver_number ` set ds
   \<and> (\<forall>n. positionsOf (initPositionMap ds) n = [])"
proof (induction ds rule: rev_induct)
  case Nil
  then show ?case by (simp add: initPositionMap_def wfmap_def positionsOf_def)
next
  case (snoc d ds)
  then show ?case
    by (auto simp: initPositionMap_snoc wfmap_update dom_update positionsOf_update)
qed

lemma wfmap_pushPositions: "wfmap pm \<Longrightarrow> wfmap (pushPositions L s idx pm)"
proof (induction s arbitrary: idx pm)
  case Nil
  then show ?case by simp
next
  case (Cons e s)
  show ?case
  proof (cases "map_of pm (fst e)")
    case None
    with Cons show ?thesis by simp
  next
    case (Some dd)
    then have "(fst e, dd) \<in> set pm" by (rule map_of_SomeD)
    with Cons.prems have "dp_driverNumber dd = fst e" by (auto simp: wfmap_def)
    with Some Cons show ?thesis by (simp add: wfmap_update)
  qed
qed

lemma wfmap_posRun: "wfmap pm \<Longrightarrow> wfmap (posRun g ks c pm)"
  by (induction ks arbitrary: c pm) (simp_all add: wfmap_pushPositions)

subsection \<open>One entry added\<close>

lemma addDuration_None [simp]: "snd e = None \<Longrightarrow> addDuration c e = c"
  by (simp add: addDuration_def)

lemma addDuration_Some:
  "snd e = Some d \<Longrightarrow> addDuration c e = AList.update (fst e) (totalOf c (fst e) + d) c"
  by (simp add: addDuration_def totalOf_def split: option.splits)

lemma distinct_addDuration: "distinct (map fst c) \<Longrightarrow> distinct (map fst (addDuration c e))"
  by (cases "snd e") (simp_all add: addDuration_Some distinct_update)

lemma keys_addDuration:
  "map fst (addDuration c e) =
     (if snd e = None \<or> fst e \<in> set (map fst c) then map fst c else map fst c @ [fst e])"
  by (cases "snd e") (simp_all add: addDuration_Some update_keys)


lemma totalOf_addDuration:
  "totalOf (addDuration c e) n = totalOf c n + (if fst e = n then toNumber (snd e) else 0)"
  by (cases "snd e") (auto simp: addDuration_Some update_conv' totalOf_def toNumber_def)

subsection \<open>A list of entries added\<close>

lemma distinct_foldl_addDuration:
  "distinct (map fst c) \<Longrightarrow> distinct (map fst (foldl addDuration c es))"
  by (induction es arbitrary: c) (simp_all add: distinct_addDuration)


lemma totalOf_foldl_addDuration:
  "totalOf (foldl addDuration c es) n
     = totalOf c n + sum_list (map (\<lambda>e. toNumber (snd e)) (filter (\<lambda>e. fst e = n) es))"
  by (induction es arbitrary: c) (simp_all add: totalOf_addDuration)

lemma dom_foldl_addDuration:
  "set (map fst (foldl addDuration c es))
     = set (map fst c) \<union> fst ` {e \<in> set es. snd e \<noteq> None}"
proof (induction es arbitrary: c)
  case Nil
  then show ?case by simp
next
  case (Cons e es)
  have "set (map fst (addDuration c e)) = set (map fst c) \<union> (if snd e = None then {} else {fst e})"
    by (auto simp: keys_addDuration)
  with Cons [of "addDuration c e"] show ?case by auto
qed

subsection \<open>First occurrences\<close>


lemma set_firstOccurrences [simp]: "set (firstOccurrences xs) = set xs"
  by (simp add: firstOccurrences_def)



subsection \<open>Cumulative times as one fold over the visited entries\<close>

lemma foldl_cumStep:
  "foldl (cumStep g) c ks = foldl addDuration c (concat (map (groupAt g) ks))"
  by (induction ks arbitrary: c) (simp_all add: cumStep_def)

lemma processedEntries_alt:
  "processedEntries laps L
     = concat (map (groupAt (lapGroupsOf laps)) (filter (\<lambda>k. k \<le> L) (lapNumbers laps)))"
  by (simp add: processedEntries_def groupAt_def [abs_def])

lemma cumulativeAt_fold:
  "cumulativeAt laps L = foldl addDuration [] (processedEntries laps L)"
  by (simp add: cumulativeAt_def cumulativeOver_pure foldl_cumStep processedEntries_alt)


lemma cumulativeFinal_fold:
  "cumulativeFinal laps
     = foldl addDuration [] (concat (map (groupAt (lapGroupsOf laps)) (lapNumbers laps)))"
  by (simp add: cumulativeFinal_def cumulativeOver_pure foldl_cumStep)

lemma distinct_cumulativeAt: "distinct (map fst (cumulativeAt laps L))"
  by (simp add: cumulativeAt_fold distinct_foldl_addDuration)


subsection \<open>Splitting the sorted lap numbers at one of them\<close>

lemma filter_le_split:
  "sorted ks \<Longrightarrow> distinct ks \<Longrightarrow> L \<in> set ks \<Longrightarrow>
   filter (\<lambda>k. k \<le> L) ks = filter (\<lambda>k. k < L) ks @ [L]"
proof (induction ks)
  case Nil
  then show ?case by simp
next
  case (Cons k ks)
  show ?case
  proof (cases "k = L")
    case True
    with Cons.prems have "\<forall>x\<in>set ks. L < x" by (auto simp: less_le)
    then have "filter (\<lambda>k. k \<le> L) ks = []" "filter (\<lambda>k. k < L) ks = []"
      by (auto simp: filter_empty_conv)
    with True show ?thesis by simp
  next
    case False
    with Cons.prems have "L \<in> set ks" "k < L" by (auto simp: less_le)
    with Cons show ?thesis by simp
  qed
qed

lemma sorted_split_le:
  "sorted ks \<Longrightarrow> ks = filter (\<lambda>k. k \<le> L) ks @ filter (\<lambda>k. \<not> k \<le> L) ks"
proof (induction ks)
  case Nil
  then show ?case by simp
next
  case (Cons k ks)
  show ?case
  proof (cases "k \<le> L")
    case True
    with Cons show ?thesis by simp
  next
    case False
    with Cons.prems have "\<forall>x\<in>set ks. \<not> x \<le> L" by auto
    then have "filter (\<lambda>k. k \<le> L) ks = []" "filter (\<lambda>k. \<not> k \<le> L) ks = ks"
      by (auto simp: filter_empty_conv filter_id_conv)
    with False show ?thesis by simp
  qed
qed

lemma lapNumbers_split:
  assumes "L \<in> set (lapNumbers laps)"
  shows "lapNumbers laps = filter (\<lambda>k. k < L) (lapNumbers laps) @ [L]
            @ filter (\<lambda>k. \<not> k \<le> L) (lapNumbers laps)"
    and "filter (\<lambda>k. k \<le> L) (lapNumbers laps) = filter (\<lambda>k. k < L) (lapNumbers laps) @ [L]"
proof -
  show 2: "filter (\<lambda>k. k \<le> L) (lapNumbers laps) = filter (\<lambda>k. k < L) (lapNumbers laps) @ [L]"
    using assms lapNumbers_props(1,2) by (rule filter_le_split [rotated 2])
  show "lapNumbers laps = filter (\<lambda>k. k < L) (lapNumbers laps) @ [L]
            @ filter (\<lambda>k. \<not> k \<le> L) (lapNumbers laps)"
    using sorted_split_le [OF lapNumbers_props(1), of laps L] 2 by simp
qed


subsection \<open>The entry of a driver in one pass\<close>

lemma entries_notin: "n \<notin> fst ` set s \<Longrightarrow> entries L idx s n = []"
  by (induction s arbitrary: idx) auto

lemma entries_nth:
  "distinct (map fst s) \<Longrightarrow> i < length s \<Longrightarrow> fst (s ! i) = n \<Longrightarrow>
   entries L idx s n = [\<lparr>pd_lap = L, pd_position = idx + i + 1\<rparr>]"
proof (induction s arbitrary: i idx)
  case Nil
  then show ?case by simp
next
  case (Cons e s)
  show ?case
  proof (cases i)
    case 0
    with Cons.prems have "n \<notin> fst ` set s" by auto
    with 0 Cons.prems show ?thesis by (simp add: entries_notin)
  next
    case (Suc j)
    with Cons.prems have "j < length s" "fst (s ! j) = n" by simp_all
    then have "n \<in> fst ` set s" by (metis imageI nth_mem)
    with Cons.prems(1) have "fst e \<noteq> n" by auto
    with Suc Cons.prems Cons.IH [of j "idx + 1"] show ?thesis by simp
  qed
qed

lemma entries_lap: "x \<in> set (entries L idx s n) \<Longrightarrow> pd_lap x = L"
  by (induction s arbitrary: idx) (auto split: if_splits)

lemma entries_in:
  assumes "distinct (map fst s)" "n \<in> fst ` set s"
  shows "\<exists>i<length s. fst (s ! i) = n \<and> entries L idx s n = [\<lparr>pd_lap = L, pd_position = idx + i + 1\<rparr>]"
proof -
  from assms(2) obtain i where "i < length s" "fst (s ! i) = n"
    by (metis imageE in_set_conv_nth)
  with entries_nth [OF assms(1) this] show ?thesis by blast
qed

subsection \<open>The entries of a driver over a list of lap numbers\<close>

lemma contrib_append:
  "contrib g c (ks1 @ ks2) n = contrib g c ks1 n @ contrib g (foldl (cumStep g) c ks1) ks2 n"
  by (induction ks1 arbitrary: c) simp_all

lemma contrib_lap: "x \<in> set (contrib g c ks n) \<Longrightarrow> pd_lap x \<in> set ks"
  by (induction ks arbitrary: c) (auto dest: entries_lap)

lemma filter_contrib_other: "L \<notin> set ks \<Longrightarrow> filter (\<lambda>e. pd_lap e = L) (contrib g c ks n) = []"
  by (auto simp: filter_empty_conv dest: contrib_lap)

lemma filter_entries_same: "filter (\<lambda>e. pd_lap e = L) (entries L idx s n) = entries L idx s n"
  by (auto simp: filter_id_conv dest: entries_lap)

lemma standingsAt_props:
  "distinct (map fst (standingsAt laps L))"
  "set (standingsAt laps L) = set (cumulativeAt laps L)"
  "length (standingsAt laps L) = length (cumulativeAt laps L)"
  "sorted (map snd (standingsAt laps L))"
proof -
  have "distinct (cumulativeAt laps L)"
    using distinct_cumulativeAt [of laps L] by (rule distinct_map [THEN iffD1, THEN conjunct1])
  moreover have "inj_on fst (set (cumulativeAt laps L))"
    using distinct_cumulativeAt [of laps L] by (simp add: distinct_map)
  ultimately show "distinct (map fst (standingsAt laps L))"
    by (simp add: standingsAt_def distinct_map)
qed (simp_all add: standingsAt_def)

lemma contrib_at_lap:
  assumes L: "L \<in> set (lapNumbers laps)"
  shows "filter (\<lambda>e. pd_lap e = L) (contrib (lapGroupsOf laps) [] (lapNumbers laps) n)
           = entries L 0 (standingsAt laps L) n"
proof -
  let ?g = "lapGroupsOf laps"
  let ?A = "filter (\<lambda>k. k < L) (lapNumbers laps)"
  let ?B = "filter (\<lambda>k. \<not> k \<le> L) (lapNumbers laps)"
  have split: "lapNumbers laps = ?A @ [L] @ ?B" by (rule lapNumbers_split(1) [OF L])
  have sub: "set (?A @ [L]) \<subseteq> set (lapNumbers laps)" using L by auto
  have at: "cumStep ?g (foldl (cumStep ?g) [] ?A) L = cumulativeAt laps L"
    using lapNumbers_split(2) [OF L] cumulativeOver_pure [OF sub]
    by (simp add: cumulativeAt_def)
  have "contrib ?g [] (lapNumbers laps) n = contrib ?g [] (?A @ [L] @ ?B) n"
    using split by simp
  also have "\<dots> = contrib ?g [] ?A n @ entries L 0 (standingsAt laps L) n
      @ contrib ?g (cumulativeAt laps L) ?B n"
    by (simp add: contrib_append at standingsAt_def)
  finally have "contrib ?g [] (lapNumbers laps) n = contrib ?g [] ?A n
      @ entries L 0 (standingsAt laps L) n @ contrib ?g (cumulativeAt laps L) ?B n" .
  moreover have "L \<notin> set ?A" "L \<notin> set ?B" by auto
  ultimately show ?thesis
    by (simp add: filter_contrib_other filter_entries_same)
qed

subsection \<open>The result of the reconstruction\<close>


lemma reconstruct_eq:
  "reconstruct drivers laps
     = Inr (filter (\<lambda>d. length (dp_positions d) > 0) (map snd (finalMap drivers laps)))"
  by (simp add: reconstruct_def processLaps_lapGroupsOf finalMap_def)

lemma finalMap_props:
  "wfmap (finalMap drivers laps)"
  "fst ` set (finalMap drivers laps) = driver_number ` set drivers"
  "positionsOf (finalMap drivers laps) n =
     (if n \<in> driver_number ` set drivers
      then contrib (lapGroupsOf laps) [] (lapNumbers laps) n else [])"
proof -
  show "wfmap (finalMap drivers laps)"
    using initPositionMap_props [of drivers] by (simp add: finalMap_def wfmap_posRun)
  show "fst ` set (finalMap drivers laps) = driver_number ` set drivers"
  proof -
    have "map fst (finalMap drivers laps) = map fst (initPositionMap drivers)"
      by (simp add: finalMap_def keys_posRun)
    then have "set (map fst (finalMap drivers laps)) = set (map fst (initPositionMap drivers))"
      by simp
    then show ?thesis using initPositionMap_props [of drivers] by simp
  qed
  show "positionsOf (finalMap drivers laps) n =
     (if n \<in> driver_number ` set drivers
      then contrib (lapGroupsOf laps) [] (lapNumbers laps) n else [])"
    using initPositionMap_props [of drivers]
    by (simp add: finalMap_def positionsOf_posRun)
qed

lemma wfmap_lookup:
  "wfmap pm \<Longrightarrow> (n, d) \<in> set pm \<Longrightarrow> dp_driverNumber d = n \<and> positionsOf pm n = dp_positions d"
  by (auto simp: wfmap_def positionsOf_def)

lemma result_member:
  assumes "d \<in> set (filter (\<lambda>d. length (dp_positions d) > 0) (map snd (finalMap drivers laps)))"
  shows "dp_driverNumber d \<in> driver_number ` set drivers
     \<and> dp_positions d = contrib (lapGroupsOf laps) [] (lapNumbers laps) (dp_driverNumber d)
     \<and> dp_positions d \<noteq> []"
proof -
  from assms obtain n where nd: "(n, d) \<in> set (finalMap drivers laps)" and ne: "dp_positions d \<noteq> []"
    by auto
  from wfmap_lookup [OF finalMap_props(1) nd]
  have n: "dp_driverNumber d = n" and p: "positionsOf (finalMap drivers laps) n = dp_positions d"
    by simp_all
  from nd have "n \<in> fst ` set (finalMap drivers laps)" by force
  then have listed: "n \<in> driver_number ` set drivers" by (simp add: finalMap_props(2))
  with p n ne show ?thesis by (simp add: finalMap_props(3))
qed

lemma result_has:
  assumes "n \<in> driver_number ` set drivers"
    and "contrib (lapGroupsOf laps) [] (lapNumbers laps) n \<noteq> []"
  shows "\<exists>d\<in>set (filter (\<lambda>d. length (dp_positions d) > 0) (map snd (finalMap drivers laps))).
           dp_driverNumber d = n
           \<and> dp_positions d = contrib (lapGroupsOf laps) [] (lapNumbers laps) n"
proof -
  from assms(1) have "n \<in> fst ` set (finalMap drivers laps)" by (simp add: finalMap_props(2))
  then obtain d where nd: "(n, d) \<in> set (finalMap drivers laps)" by auto
  from wfmap_lookup [OF finalMap_props(1) nd] assms
  have "dp_driverNumber d = n"
    "dp_positions d = contrib (lapGroupsOf laps) [] (lapNumbers laps) n"
    by (simp_all add: finalMap_props(3))
  with nd assms(2) show ?thesis by force
qed

lemma result_distinct:
  "distinct (map dp_driverNumber
      (filter (\<lambda>d. length (dp_positions d) > 0) (map snd (finalMap drivers laps))))"
proof -
  have eq: "map dp_driverNumber (map snd (finalMap drivers laps)) = map fst (finalMap drivers laps)"
    using finalMap_props(1) [of drivers laps] by (auto simp: wfmap_def)
  have d: "distinct (map fst (finalMap drivers laps))"
    using finalMap_props(1) [of drivers laps] by (simp add: wfmap_def)
  have "distinct (map dp_driverNumber (map snd (finalMap drivers laps)))"
    unfolding eq by (rule d)
  then show ?thesis by (rule distinct_map_filter)
qed

subsection \<open>Which entries the loop has visited\<close>

lemma set_groupAt:
  "set (groupAt (lapGroupsOf laps) k)
     = (\<lambda>l. (lap_driver_number l, lap_duration l)) ` {l \<in> set laps. lap_number l = k}"
  by (auto simp: groupAt_lapGroupsOf)

lemma set_processedEntries:
  "set (processedEntries laps L)
     = (\<lambda>l. (lap_driver_number l, lap_duration l)) ` {l \<in> set laps. lap_number l \<le> L}"
  by (auto simp: processedEntries_alt set_groupAt lapNumbers_props(3))


lemma keys_cumulativeAt_set:
  "fst ` set (cumulativeAt laps L)
     = lap_driver_number ` {l \<in> set laps. lap_duration l \<noteq> None \<and> lap_number l \<le> L}"
proof -
  have "set (map fst (cumulativeAt laps L))
      = fst ` {e \<in> set (processedEntries laps L). snd e \<noteq> None}"
    using dom_foldl_addDuration [of "[]" "processedEntries laps L"]
    by (simp add: cumulativeAt_fold)
  also have "\<dots> = lap_driver_number ` {l \<in> set laps. lap_duration l \<noteq> None \<and> lap_number l \<le> L}"
    unfolding set_processedEntries by force
  finally show ?thesis by simp
qed


subsection \<open>Sums regrouped by lap number\<close>

lemma sum_list_select:
  "distinct ks \<Longrightarrow>
   sum_list (map (\<lambda>k. if a = k then (c::real) else 0) ks) = (if a \<in> set ks then c else 0)"
  by (induction ks) auto

lemma sum_list_regroup:
  fixes f :: "'a \<Rightarrow> real"
  assumes "distinct ks"
  shows "sum_list (map (\<lambda>k. sum_list (map f (filter (\<lambda>l. P l \<and> key l = k) xs))) ks)
           = sum_list (map f (filter (\<lambda>l. P l \<and> key l \<in> set ks) xs))"
proof (induction xs)
  case Nil
  then show ?case by simp
next
  case (Cons x xs)
  have "sum_list (map (\<lambda>k. sum_list (map f (filter (\<lambda>l. P l \<and> key l = k) (x # xs)))) ks)
      = sum_list (map (\<lambda>k. (if key x = k then (if P x then f x else 0) else 0)
            + sum_list (map f (filter (\<lambda>l. P l \<and> key l = k) xs))) ks)"
    by (intro arg_cong [where f = sum_list] map_cong) auto
  also have "\<dots> = sum_list (map (\<lambda>k. if key x = k then (if P x then f x else 0) else 0) ks)
      + sum_list (map (\<lambda>k. sum_list (map f (filter (\<lambda>l. P l \<and> key l = k) xs))) ks)"
    by (rule sum_list_addf)
  also have "\<dots> = (if key x \<in> set ks then (if P x then f x else 0) else 0)
      + sum_list (map f (filter (\<lambda>l. P l \<and> key l \<in> set ks) xs))"
    by (simp only: sum_list_select [OF assms] Cons.IH)
  also have "\<dots> = sum_list (map f (filter (\<lambda>l. P l \<and> key l \<in> set ks) (x # xs)))"
    by simp
  finally show ?case .
qed

lemma sum_over_concat:
  fixes h :: "'a \<Rightarrow> real"
  shows "sum_list (map h (filter Q (concat (map G ks))))
           = sum_list (map (\<lambda>k. sum_list (map h (filter Q (G k)))) ks)"
  by (induction ks) simp_all

lemma sum_entries_of_driver:
  "sum_list (map (\<lambda>e. toNumber (snd e)) (filter (\<lambda>e. fst e = n) (processedEntries laps L)))
     = sum_list (map (\<lambda>l. toNumber (lap_duration l))
          (filter (\<lambda>l. lap_driver_number l = n \<and> lap_number l \<le> L) laps))"
proof -
  let ?ks = "filter (\<lambda>k. k \<le> L) (lapNumbers laps)"
  have d: "distinct ?ks" using lapNumbers_props(2) by simp
  have "sum_list (map (\<lambda>e. toNumber (snd e)) (filter (\<lambda>e. fst e = n) (processedEntries laps L)))
      = sum_list (map (\<lambda>k. sum_list (map (\<lambda>l. toNumber (lap_duration l))
            (filter (\<lambda>l. lap_driver_number l = n \<and> lap_number l = k) laps))) ?ks)"
    by (simp add: processedEntries_alt sum_over_concat comp_def
        groupAt_lapGroupsOf filter_map conj_commute)
  also have "\<dots> = sum_list (map (\<lambda>l. toNumber (lap_duration l))
      (filter (\<lambda>l. lap_driver_number l = n \<and> lap_number l \<in> set ?ks) laps))"
    by (rule sum_list_regroup [OF d])
  also have "\<dots> = sum_list (map (\<lambda>l. toNumber (lap_duration l))
      (filter (\<lambda>l. lap_driver_number l = n \<and> lap_number l \<le> L) laps))"
    by (intro arg_cong [where f = sum_list] arg_cong [where f = "map _"] filter_cong)
      (auto simp: lapNumbers_props(3))
  finally show ?thesis .
qed

lemma sum_skips_null:
  "sum_list (map (\<lambda>l. toNumber (lap_duration l)) (filter (\<lambda>l. P l \<and> lap_duration l \<noteq> None) xs))
     = sum_list (map (\<lambda>l. toNumber (lap_duration l)) (filter P xs))"
  by (induction xs) (auto simp: toNumber_def)

lemma totalOf_Nil [simp]: "totalOf [] n = 0"
  by (simp add: totalOf_def)

lemma totalOf_Some: "map_of c n = Some t \<Longrightarrow> totalOf c n = t"
  by (simp add: totalOf_def)

subsection \<open>The positions a result holds for one lap number\<close>

lemma positionsAtLap_I:
  "d \<in> set res \<Longrightarrow> e \<in> set (dp_positions d) \<Longrightarrow> pd_lap e = L \<Longrightarrow>
   (dp_driverNumber d, pd_position e) \<in> set (positionsAtLap res L)"
  unfolding positionsAtLap_def by force

lemma positionsAtLap_iff:
  assumes Lk: "L \<in> set (lapNumbers laps)"
  shows "x \<in> set (positionsAtLap
             (filter (\<lambda>d. length (dp_positions d) > 0) (map snd (finalMap drivers laps))) L)
         \<longleftrightarrow> (\<exists>i<length (standingsAt laps L).
                fst (standingsAt laps L ! i) \<in> driver_number ` set drivers
                \<and> x = (fst (standingsAt laps L ! i), i + 1))"
    (is "x \<in> set (positionsAtLap ?res L) \<longleftrightarrow> ?R")
proof
  assume "x \<in> set (positionsAtLap ?res L)"
  then obtain d e where d: "d \<in> set ?res"
    and e: "e \<in> set (filter (\<lambda>e. pd_lap e = L) (dp_positions d))"
    and x: "x = (dp_driverNumber d, pd_position e)"
    by (auto simp: positionsAtLap_def)
  let ?n = "dp_driverNumber d"
  from result_member [OF d] have listed: "?n \<in> driver_number ` set drivers"
    and p: "dp_positions d = contrib (lapGroupsOf laps) [] (lapNumbers laps) ?n" by simp_all
  from e p have e': "e \<in> set (entries L 0 (standingsAt laps L) ?n)"
    by (simp only: contrib_at_lap [OF Lk, symmetric])
  have "?n \<in> fst ` set (standingsAt laps L)"
  proof (rule ccontr)
    assume "?n \<notin> fst ` set (standingsAt laps L)"
    then have "entries L 0 (standingsAt laps L) ?n = []" by (rule entries_notin)
    with e' show False by simp
  qed
  from entries_in [OF standingsAt_props(1) this, of L 0] obtain i where
    i: "i < length (standingsAt laps L)" "fst (standingsAt laps L ! i) = ?n"
      "entries L 0 (standingsAt laps L) ?n = [\<lparr>pd_lap = L, pd_position = 0 + i + 1\<rparr>]"
    by blast
  with e' have "pd_position e = i + 1" by simp
  with i listed x show ?R by auto
next
  assume ?R
  then obtain i where i: "i < length (standingsAt laps L)"
    and listed: "fst (standingsAt laps L ! i) \<in> driver_number ` set drivers"
    and x: "x = (fst (standingsAt laps L ! i), i + 1)" by blast
  let ?n = "fst (standingsAt laps L ! i)"
  have en: "entries L 0 (standingsAt laps L) ?n = [\<lparr>pd_lap = L, pd_position = i + 1\<rparr>]"
    using entries_nth [OF standingsAt_props(1) i, where n = ?n and L = L and idx = 0] by simp
  let ?c = "contrib (lapGroupsOf laps) [] (lapNumbers laps) ?n"
  have f: "filter (\<lambda>e. pd_lap e = L) ?c = [\<lparr>pd_lap = L, pd_position = i + 1\<rparr>]"
    using contrib_at_lap [OF Lk, of ?n] en by simp
  then have "?c \<noteq> []" by auto
  from result_has [OF listed this] obtain d where
    d: "d \<in> set ?res" "dp_driverNumber d = ?n" "dp_positions d = ?c" by blast
  have "\<lparr>pd_lap = L, pd_position = i + 1\<rparr> \<in> set (filter (\<lambda>e. pd_lap e = L) (dp_positions d))"
    using d(3) f by simp
  then have "\<lparr>pd_lap = L, pd_position = i + 1\<rparr> \<in> set (dp_positions d)" by simp
  from positionsAtLap_I [OF d(1) this, of L] d(2) x
  show "x \<in> set (positionsAtLap ?res L)" by simp
qed

lemma entries_at_most_one:
  "distinct (map fst s) \<Longrightarrow> length (entries L idx s n) \<le> 1"
proof (cases "n \<in> fst ` set s")
  case True
  assume "distinct (map fst s)"
  from entries_in [OF this True, of L idx] show ?thesis by auto
next
  case False
  then show ?thesis by (simp add: entries_notin)
qed

lemma contrib_nonempty_has_duration:
  assumes "contrib (lapGroupsOf laps) [] (lapNumbers laps) n \<noteq> []"
  shows "hasDuration laps n"
proof -
  from assms have "hd (contrib (lapGroupsOf laps) [] (lapNumbers laps) n)
      \<in> set (contrib (lapGroupsOf laps) [] (lapNumbers laps) n)" by (rule hd_in_set)
  then obtain x where x: "x \<in> set (contrib (lapGroupsOf laps) [] (lapNumbers laps) n)" ..
  let ?k = "pd_lap x"
  have k: "?k \<in> set (lapNumbers laps)" using x by (rule contrib_lap)
  from x have "x \<in> set (filter (\<lambda>e. pd_lap e = ?k)
      (contrib (lapGroupsOf laps) [] (lapNumbers laps) n))" by simp
  then have "x \<in> set (entries ?k 0 (standingsAt laps ?k) n)"
    by (simp only: contrib_at_lap [OF k])
  then have ne: "entries ?k 0 (standingsAt laps ?k) n \<noteq> []" by auto
  have "n \<in> fst ` set (standingsAt laps ?k)"
  proof (rule ccontr)
    assume "n \<notin> fst ` set (standingsAt laps ?k)"
    then have "entries ?k 0 (standingsAt laps ?k) n = []" by (rule entries_notin)
    with ne show False by simp
  qed
  then have "n \<in> fst ` set (cumulativeAt laps ?k)" by (simp add: standingsAt_props(2))
  then show ?thesis
    unfolding keys_cumulativeAt_set hasDuration_def list_ex_iff by auto
qed

subsection \<open>Order among equal cumulative times\<close>



subsection \<open>Concrete runs\<close>

lemma tie_values:
  "cumulativeAt lapsTie 3 = [(44, 180), (16, 180)]"
  "standingsAt lapsTie 3 = [(44, 180), (16, 180)]"
  "cumulativeAt lapsTie 2 = [(44, 121), (16, 120)]"
  "standingsAt lapsTie 2 = [(16, 120), (44, 121)]"
  "positionTable [someDriver, otherDriver] lapsTie 3 = Inr [(44, 1), (16, 2)]"
  "positionTable [someDriver, otherDriver] lapsTie 2 = Inr [(44, 2), (16, 1)]"
  "positionTable [someDriver] lapsTie 2 = Inr [(44, 2)]"
  by code_simp+


lemma pit_values:
  "cumulativeAt lapsPit 1 = [(44, 95)]"
  "cumulativeAt lapsPit 3 = [(44, 175)]"
  "cumulativeFinal lapsPit = [(44, 175)]"
  "positionTable [someDriver] lapsPit 1 = Inr [(44, 1)]"
  by code_simp+


subsection \<open>The claims\<close>

text \<open>
  Claim C2, as amended. After the loop has handled the lap numbers up to \<open>L\<close>, the
  cumulative time of a driver is the sum of the durations of all their laps up to \<open>L\<close> whose
  duration is not null, and a driver without such a lap has no cumulative time. A null
  duration is never added; the pit-out flag is not looked at, so a pit-out lap with a
  duration is added like any other.
\<close>

theorem cumulative_time_is_sum_of_durations:
  "map_of (cumulativeAt laps L) n =
     (if hasDuration (lapsUpTo L laps) n then Some (totalDuration (lapsUpTo L laps) n) else None)"
proof -
  have upto: "lapsUpTo L laps = filter (\<lambda>l. lap_number l \<le> L) laps"
    by (simp add: lapsUpTo_def)
  have "map_of (cumulativeAt laps L) n =
     (if hasDuration (filter (\<lambda>l. lap_number l \<le> L) laps) n
      then Some (totalDuration (filter (\<lambda>l. lap_number l \<le> L) laps) n)
      else None)"
  proof (cases "hasDuration (filter (\<lambda>l. lap_number l \<le> L) laps) n")
    case False
    then have "n \<notin> fst ` set (cumulativeAt laps L)"
      unfolding keys_cumulativeAt_set by (auto simp: hasDuration_def list_ex_iff)
    with False show ?thesis by (simp add: map_of_eq_None_iff)
  next
    case True
    then have "n \<in> fst ` set (cumulativeAt laps L)"
      unfolding keys_cumulativeAt_set by (auto simp: hasDuration_def list_ex_iff)
    then obtain t where t: "map_of (cumulativeAt laps L) n = Some t"
      by (metis map_of_eq_None_iff not_Some_eq)
    have "t = totalOf (cumulativeAt laps L) n" using t by (simp add: totalOf_Some)
    also have "\<dots> = sum_list (map (\<lambda>e. toNumber (snd e))
        (filter (\<lambda>e. fst e = n) (processedEntries laps L)))"
      by (simp add: cumulativeAt_fold totalOf_foldl_addDuration)
    also have "\<dots> = sum_list (map (\<lambda>l. toNumber (lap_duration l))
            (filter (\<lambda>l. lap_driver_number l = n \<and> lap_number l \<le> L) laps))"
      by (rule sum_entries_of_driver)
    also have "\<dots> = sum_list (map (\<lambda>l. toNumber (lap_duration l))
            (filter (\<lambda>l. (lap_driver_number l = n \<and> lap_number l \<le> L) \<and> lap_duration l \<noteq> None) laps))"
      by (rule sum_skips_null [symmetric])
    also have "\<dots> = totalDuration (filter (\<lambda>l. lap_number l \<le> L) laps) n"
      unfolding totalDuration_def filter_filter
      by (intro arg_cong [where f = sum_list] arg_cong [where f = "map _"] filter_cong) auto
    finally show ?thesis using True t by simp
  qed
  then show ?thesis by (simp only: upto)
qed

theorem cumulative_time_is_sum_of_durations_witness:
  "map lap_duration lapsPit = [Some 95, Some 80, None]
   \<and> map is_pit_out_lap lapsPit = [True, False, False]
   \<and> hasDuration (lapsUpTo 3 lapsPit) 44
   \<and> totalDuration (lapsUpTo 3 lapsPit) 44 = 175
   \<and> map_of (cumulativeAt lapsPit 3) 44 = Some 175
   \<and> map_of (cumulativeAt lapsPit 3) 16 = None"
proof -
  have v: "map lap_duration lapsPit = [Some 95, Some 80, None]"
    "map is_pit_out_lap lapsPit = [True, False, False]"
    by (simp_all add: lapsPit_def mkLap_def)
  have h: "hasDuration (lapsUpTo 3 lapsPit) 44" "\<not> hasDuration (lapsUpTo 3 lapsPit) 16"
    by (simp_all add: hasDuration_def lapsUpTo_def lapsPit_def mkLap_def)
  have t: "totalDuration (lapsUpTo 3 lapsPit) 44 = 175"
    by (simp add: totalDuration_def lapsUpTo_def lapsPit_def mkLap_def toNumber_def)
  from cumulative_time_is_sum_of_durations [of lapsPit 3 44]
    cumulative_time_is_sum_of_durations [of lapsPit 3 16] v h t
  show ?thesis by simp
qed

text \<open>A pit-out lap of 95 seconds is the cumulative time of its driver after lap 1, and
  the driver is ranked with it.\<close>

theorem pit_out_lap_is_added_counterexample:
  "is_pit_out_lap (lapsPit ! 0) \<and> lap_duration (lapsPit ! 0) = Some 95
   \<and> lap_number (lapsPit ! 0) = 1 \<and> lap_driver_number (lapsPit ! 0) = 44
   \<and> cumulativeAt lapsPit 1 = [(44, 95)]
   \<and> cumulativeFinal lapsPit = [(44, 175)]
   \<and> positionTable [someDriver] lapsPit 1 = Inr [(44, 1)]"
  using pit_values by (simp add: lapsPit_def mkLap_def)



text \<open>
  Claim C9, as amended. Let \<open>L\<close> be a lap number of the lap set, and let every driver number
  with a cumulative time after the pass for \<open>L\<close> belong to the drivers of the session. Then
  the positions the result holds for lap \<open>L\<close> are exactly \<open>1, ..., K\<close>, where \<open>K\<close> is the
  number of drivers with a lap with a duration up to \<open>L\<close>; they go to exactly those drivers,
  one position per driver and one driver per position; no driver has two entries for \<open>L\<close>
  or two rows in the result; and every driver in the result has a lap with a duration.
\<close>

theorem positions_are_one_to_K:
  assumes L: "L \<in> lap_number ` set laps"
    and all_listed: "fst ` set (cumulativeAt laps L) \<subseteq> driver_number ` set drivers"
  shows "\<exists>res. driverPositions (Some drivers) (Some laps) = Inr res
     \<and> snd ` set (positionsAtLap res L) = {1..length (cumulativeAt laps L)}
     \<and> fst ` set (positionsAtLap res L) = fst ` set (cumulativeAt laps L)
     \<and> length (cumulativeAt laps L)
         = card (lap_driver_number ` {l \<in> set laps. lap_duration l \<noteq> None \<and> lap_number l \<le> L})
     \<and> (\<forall>x\<in>set (positionsAtLap res L). \<forall>y\<in>set (positionsAtLap res L).
           (fst x = fst y) = (snd x = snd y))
     \<and> (\<forall>d\<in>set res. length (filter (\<lambda>e. pd_lap e = L) (dp_positions d)) \<le> 1)
     \<and> distinct (map dp_driverNumber res)
     \<and> (\<forall>d\<in>set res. hasDuration laps (dp_driverNumber d))"
proof -
  let ?res = "filter (\<lambda>d. length (dp_positions d) > 0) (map snd (finalMap drivers laps))"
  let ?S = "standingsAt laps L"
  let ?K = "length (cumulativeAt laps L)"
  have Lk: "L \<in> set (lapNumbers laps)" using L by (simp add: lapNumbers_props(3))
  have res: "driverPositions (Some drivers) (Some laps) = Inr ?res"
    by (simp add: driverPositions_def reconstruct_eq)
  have len: "length ?S = ?K" by (rule standingsAt_props(3))
  have listed: "fst (?S ! i) \<in> driver_number ` set drivers" if "i < length ?S" for i
  proof -
    from that have "?S ! i \<in> set (cumulativeAt laps L)"
      using standingsAt_props(2) [of laps L] nth_mem by blast
    with all_listed show ?thesis by auto
  qed
  have mem: "x \<in> set (positionsAtLap ?res L) \<longleftrightarrow> (\<exists>i<length ?S. x = (fst (?S ! i), i + 1))" for x
    using positionsAtLap_iff [OF Lk, of x drivers] listed by auto
  have a: "snd ` set (positionsAtLap ?res L) = {1..?K}"
  proof (intro set_eqI iffI)
    fix p assume "p \<in> snd ` set (positionsAtLap ?res L)"
    then show "p \<in> {1..?K}" using mem len by auto
  next
    fix p assume "p \<in> {1..?K}"
    then have "p - 1 < length ?S" "p = (p - 1) + 1" using len by auto
    then have "(fst (?S ! (p - 1)), p) \<in> set (positionsAtLap ?res L)"
      using mem by metis
    then show "p \<in> snd ` set (positionsAtLap ?res L)" by force
  qed
  have b: "fst ` set (positionsAtLap ?res L) = fst ` set (cumulativeAt laps L)"
  proof (intro set_eqI iffI)
    fix n assume "n \<in> fst ` set (positionsAtLap ?res L)"
    then obtain i where "i < length ?S" "n = fst (?S ! i)" using mem by auto
    then have "n \<in> fst ` set ?S" by (metis imageI nth_mem)
    then show "n \<in> fst ` set (cumulativeAt laps L)" by (simp add: standingsAt_props(2))
  next
    fix n assume "n \<in> fst ` set (cumulativeAt laps L)"
    then have "n \<in> fst ` set ?S" by (simp add: standingsAt_props(2))
    then obtain i where "i < length ?S" "fst (?S ! i) = n" by (metis imageE in_set_conv_nth)
    then have "(n, i + 1) \<in> set (positionsAtLap ?res L)" using mem by auto
    then show "n \<in> fst ` set (positionsAtLap ?res L)" by force
  qed
  have c: "?K = card (lap_driver_number ` {l \<in> set laps. lap_duration l \<noteq> None \<and> lap_number l \<le> L})"
  proof -
    have "?K = length (map fst (cumulativeAt laps L))" by simp
    also have "\<dots> = card (set (map fst (cumulativeAt laps L)))"
      using distinct_cumulativeAt [of laps L] by (rule distinct_card [symmetric])
    also have "set (map fst (cumulativeAt laps L))
        = lap_driver_number ` {l \<in> set laps. lap_duration l \<noteq> None \<and> lap_number l \<le> L}"
      using keys_cumulativeAt_set [of laps L] by simp
    finally show ?thesis .
  qed
  have d: "(fst x = fst y) = (snd x = snd y)"
    if "x \<in> set (positionsAtLap ?res L)" "y \<in> set (positionsAtLap ?res L)" for x y
  proof -
    from that mem obtain i j where i: "i < length ?S" "x = (fst (?S ! i), i + 1)"
      and j: "j < length ?S" "y = (fst (?S ! j), j + 1)" by blast
    have "(map fst ?S ! i = map fst ?S ! j) = (i = j)"
      using standingsAt_props(1) [of laps L] i(1) j(1)
      by (intro nth_eq_iff_index_eq) simp_all
    then have "(fst (?S ! i) = fst (?S ! j)) = (i = j)"
      using i(1) j(1) by simp
    with i j show ?thesis by simp
  qed
  have e: "length (filter (\<lambda>e. pd_lap e = L) (dp_positions d)) \<le> 1" if "d \<in> set ?res" for d
  proof -
    from result_member [OF that]
    have "dp_positions d = contrib (lapGroupsOf laps) [] (lapNumbers laps) (dp_driverNumber d)"
      by simp
    then show ?thesis
      using entries_at_most_one [OF standingsAt_props(1),
          where L = L and idx = 0 and n = "dp_driverNumber d"]
      by (simp only: contrib_at_lap [OF Lk])
  qed
  have f: "hasDuration laps (dp_driverNumber d)" if "d \<in> set ?res" for d
    using result_member [OF that] contrib_nonempty_has_duration [of laps "dp_driverNumber d"]
    by auto
  show ?thesis
  proof (intro exI [of _ ?res] conjI ballI)
    show "driverPositions (Some drivers) (Some laps) = Inr ?res" by (rule res)
    show "snd ` set (positionsAtLap ?res L) = {1..?K}" by (rule a)
    show "fst ` set (positionsAtLap ?res L) = fst ` set (cumulativeAt laps L)" by (rule b)
    show "?K = card (lap_driver_number ` {l \<in> set laps. lap_duration l \<noteq> None \<and> lap_number l \<le> L})"
      by (rule c)
    show "distinct (map dp_driverNumber ?res)" by (rule result_distinct)
  qed (fact d e f)+
qed

theorem positions_are_one_to_K_witness:
  "2 \<in> lap_number ` set lapsTie
   \<and> fst ` set (cumulativeAt lapsTie 2) \<subseteq> driver_number ` set [someDriver, otherDriver]
   \<and> length (cumulativeAt lapsTie 2) = 2
   \<and> positionTable [someDriver, otherDriver] lapsTie 2 = Inr [(44, 2), (16, 1)]
   \<and> (\<exists>res. driverPositions (Some [someDriver, otherDriver]) (Some lapsTie) = Inr res
         \<and> snd ` set (positionsAtLap res 2) = {1..2}
         \<and> fst ` set (positionsAtLap res 2) = {44, 16})"
proof -
  have h1: "2 \<in> lap_number ` set lapsTie" by (simp add: lapsTie_def mkLap_def)
  have h2: "fst ` set (cumulativeAt lapsTie 2) \<subseteq> driver_number ` set [someDriver, otherDriver]"
    by (simp add: tie_values someDriver_def otherDriver_def)
  from positions_are_one_to_K [OF h1 h2] obtain res where
    "driverPositions (Some [someDriver, otherDriver]) (Some lapsTie) = Inr res"
    "snd ` set (positionsAtLap res 2) = {1..length (cumulativeAt lapsTie 2)}"
    "fst ` set (positionsAtLap res 2) = fst ` set (cumulativeAt lapsTie 2)"
    by blast
  then have "\<exists>res. driverPositions (Some [someDriver, otherDriver]) (Some lapsTie) = Inr res
         \<and> snd ` set (positionsAtLap res 2) = {1..2}
         \<and> fst ` set (positionsAtLap res 2) = {44, 16}"
    by (auto simp: tie_values)
  with h1 h2 show ?thesis by (simp add: tie_values)
qed

text \<open>With driver 16 in the laps and not among the drivers, the only position recorded for
  lap 2 is 2: driver 16 takes rank 1 in the sorted array and gets no entry.\<close>

theorem unlisted_driver_takes_a_rank_counterexample:
  "map driver_number [someDriver] = [44]
   \<and> cumulativeAt lapsTie 2 = [(44, 121), (16, 120)]
   \<and> length (cumulativeAt lapsTie 2) = 2
   \<and> positionTable [someDriver] lapsTie 2 = Inr [(44, 2)]"
  using tie_values by (simp add: someDriver_def)



end
